theory Spec2Isabelle
  imports Main "HOL-Library.Sublist"
begin

section \<open>Linked-query resolution (\<^verbatim>\<open>getLinkedQueries\<close>)\<close>

text \<open>
  The workbook module resolves the queries a query depends on.  An operation of a query
  may carry a \<^verbatim>\<open>table\<close>; the table may carry a \<^verbatim>\<open>type\<close>, and when that type is
  \<^verbatim>\<open>'query'\<close> its \<^verbatim>\<open>query_name\<close> names another query.  The source reads exactly these
  fields (\<^verbatim>\<open>'table' in op && 'type' in op.table && op.table.type === 'query'\<close>), so the
  records below carry them and nothing else of an operation matters here.
\<close>

record table_ref =
  table_type :: "string option"
  query_name :: string

record operation =
  op_type :: string
  table :: "table_ref option"

record query =
  isloaded :: bool
  currentOperations :: "operation list"
  activeEditIndex :: int

text \<open>
  A JavaScript \<^verbatim>\<open>Set<string>\<close> keeps its members in insertion order and ignores the
  insertion of a member it already has: a list without duplicates, extended at the end.
\<close>

definition set_add :: "'a list \<Rightarrow> 'a \<Rightarrow> 'a list" where
  "set_add s x = (if x \<in> set s then s else s @ [x])"

text \<open>
  \<^verbatim>\<open>const operations = copy(query.currentOperations)
  if (query.activeEditIndex > -1) operations.splice(query.activeEditIndex)\<close>
  With one argument, \<^verbatim>\<open>splice(n)\<close> removes every element from index \<open>n\<close> on.
\<close>

definition effective_operations :: "query \<Rightarrow> operation list" where
  "effective_operations q =
     (if activeEditIndex q > -1 then take (nat (activeEditIndex q)) (currentOperations q)
      else currentOperations q)"

text \<open>The body of \<^verbatim>\<open>operations.forEach((op) => ...)\<close>.\<close>

definition collect_op :: "string list \<Rightarrow> operation \<Rightarrow> string list" where
  "collect_op linkedQueries op =
     (case table op of
        None \<Rightarrow> linkedQueries
      | Some t \<Rightarrow>
          (if table_type t = Some ''query'' then set_add linkedQueries (query_name t)
           else linkedQueries))"

definition collect_linked :: "query \<Rightarrow> string list" where
  "collect_linked q = foldl collect_op [] (effective_operations q)"

text \<open>
  \<^verbatim>\<open>linkedQueries.forEach((q) => getLinkedQueries(q).forEach((q) => linkedQueries.add(q)))\<close>
  \<^verbatim>\<open>Set.prototype.forEach\<close> visits the members in insertion order and also visits the
  members added while it runs, so the loop is a walk along a growing list: \<open>Loop s i\<close> is
  the loop about to visit position \<open>i\<close> of the set \<open>s\<close>.  Every call of
  \<^verbatim>\<open>getLinkedQueries\<close> starts from a fresh set; nothing is shared between the calls.
  The recursion may fail to return, so the function is defined in the option monad:
  \<open>None\<close> is a call that returns no list, because its recursion has no end (a JavaScript
  engine stops such a recursion with a stack overflow error).  \<^verbatim>\<open>useQuery\<close> (the query registry, imported from
  the query module) is a parameter; the \<^verbatim>\<open>isloaded\<close> test only writes to the console.
\<close>

datatype glq_frame = Call string | Loop "string list" nat

partial_function (option) glq_run :: "(string \<Rightarrow> query) \<Rightarrow> glq_frame \<Rightarrow> string list option" where
  "glq_run useQuery fr =
     (case fr of
        Call qname \<Rightarrow>
          (let query = useQuery qname;
               linkedQueries = collect_linked query
           in glq_run useQuery (Loop linkedQueries 0))
      | Loop linkedQueries i \<Rightarrow>
          (if i < length linkedQueries then
             Option.bind (glq_run useQuery (Call (linkedQueries ! i)))
               (\<lambda>r. glq_run useQuery (Loop (foldl set_add linkedQueries r) (Suc i)))
           else Some linkedQueries))"

definition getLinkedQueries :: "(string \<Rightarrow> query) \<Rightarrow> string \<Rightarrow> string list option" where
  "getLinkedQueries useQuery qname = glq_run useQuery (Call qname)"

text \<open>The reference graph: \<open>(r, q)\<close> is an edge when query \<open>q\<close> references query \<open>r\<close>
  in its effective operation list.\<close>

definition links :: "(string \<Rightarrow> query) \<Rightarrow> (string \<times> string) set" where
  "links useQuery = {(r, q). r \<in> set (collect_linked (useQuery q))}"

text \<open>The dependencies of \<open>q\<close>: every query reached from \<open>q\<close> by one or more references.\<close>

definition dependencies :: "(string \<Rightarrow> query) \<Rightarrow> string \<Rightarrow> string set" where
  "dependencies useQuery q = {r. (r, q) \<in> (links useQuery)\<^sup>+}"

text \<open>The part of the reference graph that can be reached from \<open>q\<close>.\<close>

definition links_from :: "(string \<Rightarrow> query) \<Rightarrow> string \<Rightarrow> (string \<times> string) set" where
  "links_from useQuery q = {(r, p). (r, p) \<in> links useQuery \<and> (p, q) \<in> (links useQuery)\<^sup>*}"

text \<open>The names the operations of a query refer to, in the order of the operations.\<close>

definition query_refs :: "operation list \<Rightarrow> string list" where
  "query_refs ops =
     concat (map (\<lambda>op. case table op of
                          None \<Rightarrow> []
                        | Some t \<Rightarrow> (if table_type t = Some ''query'' then [query_name t] else []))
                 ops)"


text \<open>A query reaches a reference cycle when some query it depends on (or the query
  itself) depends on itself.\<close>

definition reaches_cycle :: "(string \<Rightarrow> query) \<Rightarrow> string \<Rightarrow> bool" where
  "reaches_cycle useQuery q \<longleftrightarrow>
     (\<exists>c. (c, q) \<in> (links useQuery)\<^sup>* \<and> (c, c) \<in> (links useQuery)\<^sup>+)"

text \<open>What a returned call and a finished loop are shown to satisfy.\<close>

definition call_ok :: "(string \<Rightarrow> query) \<Rightarrow> string \<Rightarrow> string list \<Rightarrow> bool" where
  "call_ok useQuery q ys \<longleftrightarrow>
     glq_run useQuery (Call q) = Some ys \<and> distinct ys \<and> set ys = dependencies useQuery q \<and>
     \<not> reaches_cycle useQuery q"

definition loop_ok :: "(string \<Rightarrow> query) \<Rightarrow> string list \<Rightarrow> nat \<Rightarrow> string list \<Rightarrow> bool" where
  "loop_ok useQuery s i zs \<longleftrightarrow>
     glq_run useQuery (Loop s i) = Some zs \<and>
     (distinct s \<longrightarrow> distinct zs) \<and>
     set zs = set s \<union> (\<Union>r\<in>set (drop i s). dependencies useQuery r) \<and>
     (\<forall>r\<in>set (drop i s). \<exists>ys. call_ok useQuery r ys) \<and>
     zs = foldl set_add s (concat (map (\<lambda>r. the (glq_run useQuery (Call r))) (drop i s))) \<and>
     prefix s zs \<and>
     (\<forall>r\<in>set (drop i zs). \<exists>ys. call_ok useQuery r ys)"

definition frame_ok :: "(string \<Rightarrow> query) \<Rightarrow> glq_frame \<Rightarrow> string list \<Rightarrow> bool" where
  "frame_ok useQuery fr zs =
     (case fr of Call q \<Rightarrow> call_ok useQuery q zs | Loop s i \<Rightarrow> loop_ok useQuery s i zs)"

text \<open>Example registries.  In \<open>acyclic_queries\<close>, query \<open>a\<close> reads from \<open>b\<close>, \<open>c\<close>,
  \<open>b\<close> again and \<open>d\<close>, and is being edited at index 3 (so \<open>d\<close> is cut off); \<open>b\<close> reads
  from \<open>c\<close>.  In \<open>cyclic_queries\<close>, \<open>a\<close> reads from \<open>b\<close> and \<open>b\<close> from \<open>a\<close>.\<close>

definition from_query :: "string \<Rightarrow> operation" where
  "from_query n = \<lparr>op_type = ''source'',
                   table = Some \<lparr>table_type = Some ''query'', query_name = n\<rparr>\<rparr>"

definition from_table :: "string \<Rightarrow> operation" where
  "from_table n = \<lparr>op_type = ''source'',
                   table = Some \<lparr>table_type = Some ''table'', query_name = n\<rparr>\<rparr>"

definition no_table :: operation where
  "no_table = \<lparr>op_type = ''limit'', table = None\<rparr>"

definition loaded_query :: "operation list \<Rightarrow> int \<Rightarrow> query" where
  "loaded_query ops i = \<lparr>isloaded = True, currentOperations = ops, activeEditIndex = i\<rparr>"

definition acyclic_queries :: "string \<Rightarrow> query" where
  "acyclic_queries n =
     (if n = ''a'' then
        loaded_query [from_query ''b'', from_query ''c'', from_query ''b'', from_query ''d''] 3
      else if n = ''b'' then loaded_query [from_table ''t'', from_query ''c'', no_table] (-1)
      else loaded_query [] (-1))"

definition acyclic_rank :: "string \<Rightarrow> nat" where
  "acyclic_rank n = (if n = ''a'' then 2 else if n = ''b'' then 1 else 0)"

definition cyclic_queries :: "string \<Rightarrow> query" where
  "cyclic_queries n =
     (if n = ''a'' then loaded_query [from_query ''b''] (-1)
      else if n = ''b'' then loaded_query [from_query ''a''] (-1)
      else loaded_query [] (-1))"

section \<open>The workbook registry (\<^verbatim>\<open>useWorkbook\<close>)\<close>

text \<open>
  \<^verbatim>\<open>useWorkbook(name: string)\<close> is typed for strings, but callers pass what the router
  gives them, and the function starts with \<^verbatim>\<open>name = String(name)\<close>.  The values it can
  meet, and JavaScript's \<^verbatim>\<open>String\<close> on them.  A JavaScript number is a double; the
  numbers of this model are the safe integers, from \<open>-(2^53 - 1)\<close> to \<open>2^53 - 1\<close>, which
  are doubles exactly and which \<^verbatim>\<open>String\<close> prints in plain decimal (it changes to
  exponent notation at \<open>10^21\<close>).  Numbers with a fraction, larger numbers, \<^verbatim>\<open>NaN\<close> and
  the infinities are not values of the type.
\<close>

typedef safe_integer = "{n :: int. - (2 ^ 53 - 1) \<le> n \<and> n \<le> 2 ^ 53 - 1}"
  morphisms int_of safe
  by (rule exI[of _ 0]) simp

datatype js_value =
  JSString string | JSNumber safe_integer | JSBoolean bool | JSNull | JSUndefined

fun digits :: "nat \<Rightarrow> string" where
  "digits n =
     (if n < 10 then [''0123456789'' ! n]
      else digits (n div 10) @ [''0123456789'' ! (n mod 10)])"

declare digits.simps [simp del]

definition String_js :: "js_value \<Rightarrow> string" where
  "String_js v =
     (case v of
        JSString s \<Rightarrow> s
      | JSNumber n \<Rightarrow>
          (if int_of n < 0 then ''-'' @ digits (nat (- int_of n)) else digits (nat (int_of n)))
      | JSBoolean b \<Rightarrow> (if b then ''true'' else ''false'')
      | JSNull \<Rightarrow> ''null''
      | JSUndefined \<Rightarrow> ''undefined'')"

text \<open>
  \<^verbatim>\<open>const workbooks = new Map<string, Workbook>()\<close> holds references to workbook objects.
  Identity of objects matters here, so the objects live in a store and the registry maps a
  name to the reference (the position in the store) of its workbook.
\<close>

record workbook_object =
  resource_name :: string
  showSidebar :: bool

record session =
  objects :: "workbook_object list"
  workbooks :: "string \<rightharpoonup> nat"

text \<open>\<^verbatim>\<open>makeWorkbook(name)\<close> builds a new reactive object around the document resource of
  that name; every call yields an object that did not exist before.\<close>

definition makeWorkbook :: "string \<Rightarrow> session \<Rightarrow> nat \<times> session" where
  "makeWorkbook name s =
     (length (objects s),
      s\<lparr>objects := objects s @ [\<lparr>resource_name = name, showSidebar = True\<rparr>]\<rparr>)"

definition useWorkbook :: "js_value \<Rightarrow> session \<Rightarrow> nat \<times> session" where
  "useWorkbook v s =
     (let name = String_js v in
      case workbooks s name of
        Some existingWorkbook \<Rightarrow> (existingWorkbook, s)
      | None \<Rightarrow>
          (let (workbook, s') = makeWorkbook name s
           in (workbook, s'\<lparr>workbooks := (workbooks s')(name \<mapsto> workbook)\<rparr>)))"

text \<open>A run of further requests, for any identifiers.\<close>

definition use_all :: "js_value list \<Rightarrow> session \<Rightarrow> session" where
  "use_all vs s = fold (\<lambda>v st. snd (useWorkbook v st)) vs s"

definition new_session :: session where
  "new_session = \<lparr>objects = [], workbooks = Map.empty\<rparr>"

text \<open>In a well-formed session every registered reference denotes an object of the
  store, the workbook object made for that name.\<close>

definition registered :: "session \<Rightarrow> bool" where
  "registered s \<longleftrightarrow>
     (\<forall>n w. workbooks s n = Some w \<longrightarrow>
        w < length (objects s) \<and> resource_name (objects s ! w) = n)"

section \<open>Adding and removing queries, charts and dashboards\<close>

text \<open>
  The operations act on the workbook document and on the outside world: they open a
  confirmation dialog, start remote calls, navigate, show a toast.  What they do to the
  outside is recorded, in order, in a trace.  A remote call returns a promise; its outcome
  is a parameter of the operation that started it.  A rejection that no handler takes is
  recorded as such.
\<close>

datatype 'a outcome = Resolved 'a | Rejected string

datatype effect =
    ConfirmDialog string string
  | RemoteInsert string string
  | RemoteDelete string string
  | RemoteCall string
  | RouterReplace string
  | ErrorToast string
  | UnhandledRejection string

record row =
  row_name :: string
  row_title :: string

record chart_row = row +
  chart_query :: string
  chart_type :: string

record workbook_doc =
  queries :: "row list"
  charts :: "chart_row list"
  dashboards :: "row list"

record world =
  workbook_name :: string
  doc :: workbook_doc
  trace :: "effect list"

definition emit :: "effect \<Rightarrow> world \<Rightarrow> world" where
  "emit e w = w\<lparr>trace := trace w @ [e]\<rparr>"

definition router_replace :: "string \<Rightarrow> world \<Rightarrow> world" where
  "router_replace path w = emit (RouterReplace path) w"

definition setActiveTab :: "string \<Rightarrow> string \<Rightarrow> world \<Rightarrow> world" where
  "setActiveTab type name w =
     router_replace (''/workbook/'' @ workbook_name w @ ''/'' @ type @ ''/'' @ name) w"

text \<open>\<^verbatim>\<open>Array.prototype.findIndex\<close>: the first index whose element passes, or \<open>-1\<close>.\<close>

fun findIndex :: "('a \<Rightarrow> bool) \<Rightarrow> 'a list \<Rightarrow> int" where
  "findIndex P [] = -1"
| "findIndex P (x # xs) =
     (if P x then 0 else (let i = findIndex P xs in if i = -1 then -1 else i + 1))"

text \<open>\<^verbatim>\<open>xs.splice(start, 1)\<close>; a negative start counts from the end.\<close>

definition splice1 :: "int \<Rightarrow> 'a list \<Rightarrow> 'a list" where
  "splice1 start xs =
     (let len = int (length xs);
          from = (if start < 0 then max (len + start) 0 else min start len)
      in take (nat from) xs @ drop (Suc (nat from)) xs)"

text \<open>Modelled from the spec: \<^verbatim>\<open>confirmDialog\<close> (the confirmation-dialog helper, not among
  the sources) is the confirmation-dialog prompt: it shows the dialog and runs
  \<^verbatim>\<open>onSuccess\<close> when the user confirms, and nothing when the user dismisses it.  The
  user's answer is the first parameter.\<close>

definition confirmDialog ::
  "bool \<Rightarrow> string \<Rightarrow> string \<Rightarrow> (world \<Rightarrow> world) \<Rightarrow> world \<Rightarrow> world" where
  "confirmDialog confirmed title message onSuccess w =
     (let w' = emit (ConfirmDialog title message) w
      in if confirmed then onSuccess w' else w')"

text \<open>The inner \<^verbatim>\<open>_remove\<close> of \<^verbatim>\<open>removeQuery\<close>.  The delete is started, the navigation
  runs at once, and the \<^verbatim>\<open>then\<close> callback (the splice) runs when the delete resolves.\<close>

definition removeQuery_remove :: "string \<Rightarrow> unit outcome \<Rightarrow> world \<Rightarrow> world" where
  "removeQuery_remove name deleted w =
     (let queryIndex = findIndex (\<lambda>row. row_name row = name) (queries (doc w)) in
      if queryIndex = -1 then w
      else
        (let w1 = emit (RemoteDelete ''query'' name) w;
             nextQueryIndex = queryIndex - 1;
             w2 = (if nextQueryIndex \<ge> 0
                   then setActiveTab ''query''
                          (row_name (queries (doc w1) ! nat nextQueryIndex)) w1
                   else router_replace (''/workbook/'' @ workbook_name w1) w1)
         in case deleted of
              Resolved _ \<Rightarrow>
                w2\<lparr>doc := (doc w2)\<lparr>queries := splice1 queryIndex (queries (doc w2))\<rparr>\<rparr>
            | Rejected e \<Rightarrow> emit (UnhandledRejection e) w2))"

definition removeQuery :: "string \<Rightarrow> bool \<Rightarrow> unit outcome \<Rightarrow> world \<Rightarrow> world" where
  "removeQuery name confirmed deleted w =
     confirmDialog confirmed ''Delete Query'' ''Are you sure you want to delete this query?''
       (removeQuery_remove name deleted) w"

definition removeChart_remove :: "string \<Rightarrow> unit outcome \<Rightarrow> world \<Rightarrow> world" where
  "removeChart_remove chartName deleted w =
     (let idx = findIndex (\<lambda>row. row_name row = chartName) (charts (doc w)) in
      if idx = -1 then w
      else
        (let w1 = emit (RemoteDelete ''chart'' chartName) w;
             nextChartIndex = idx - 1;
             w2 = (if nextChartIndex \<ge> 0
                   then setActiveTab ''chart''
                          (row_name (charts (doc w1) ! nat nextChartIndex)) w1
                   else router_replace (''/workbook/'' @ workbook_name w1) w1)
         in case deleted of
              Resolved _ \<Rightarrow> w2\<lparr>doc := (doc w2)\<lparr>charts := splice1 idx (charts (doc w2))\<rparr>\<rparr>
            | Rejected e \<Rightarrow> emit (UnhandledRejection e) w2))"

definition removeChart :: "string \<Rightarrow> bool \<Rightarrow> unit outcome \<Rightarrow> world \<Rightarrow> world" where
  "removeChart chartName confirmed deleted w =
     confirmDialog confirmed ''Delete Chart'' ''Are you sure you want to delete this chart?''
       (removeChart_remove chartName deleted) w"

definition removeDashboard_remove :: "string \<Rightarrow> unit outcome \<Rightarrow> world \<Rightarrow> world" where
  "removeDashboard_remove dashboardName deleted w =
     (let idx = findIndex (\<lambda>row. row_name row = dashboardName) (dashboards (doc w)) in
      if idx = -1 then w
      else
        (let w1 = emit (RemoteDelete ''dashboard'' dashboardName) w;
             nextDashboardIndex = idx - 1;
             w2 = (if nextDashboardIndex \<ge> 0
                   then setActiveTab ''dashboard''
                          (row_name (dashboards (doc w1) ! nat nextDashboardIndex)) w1
                   else router_replace (''/workbook/'' @ workbook_name w1) w1)
         in case deleted of
              Resolved _ \<Rightarrow>
                w2\<lparr>doc := (doc w2)\<lparr>dashboards := splice1 idx (dashboards (doc w2))\<rparr>\<rparr>
            | Rejected e \<Rightarrow> emit (UnhandledRejection e) w2))"

definition removeDashboard :: "string \<Rightarrow> bool \<Rightarrow> unit outcome \<Rightarrow> world \<Rightarrow> world" where
  "removeDashboard dashboardName confirmed deleted w =
     confirmDialog confirmed ''Delete Dashboard''
       ''Are you sure you want to delete this dashboard?''
       (removeDashboard_remove dashboardName deleted) w"

text \<open>\<^verbatim>\<open>deleteWorkbook\<close>: the delete and, once it resolves, the navigation to the list of
  workbooks, both inside \<^verbatim>\<open>onSuccess\<close>.\<close>

definition deleteWorkbook :: "bool \<Rightarrow> unit outcome \<Rightarrow> world \<Rightarrow> world" where
  "deleteWorkbook confirmed deleted w =
     confirmDialog confirmed ''Delete Workbook''
       ''Are you sure you want to delete this workbook?''
       (\<lambda>w. let w1 = emit (RemoteDelete ''workbook'' (workbook_name w)) w
            in case deleted of
                 Resolved _ \<Rightarrow> router_replace ''/workbook'' w1
               | Rejected e \<Rightarrow> emit (UnhandledRejection e) w1) w"




text \<open>The paths a run navigated to, in order.\<close>

definition navigations :: "effect list \<Rightarrow> string list" where
  "navigations es = concat (map (\<lambda>e. case e of RouterReplace p \<Rightarrow> [p] | _ \<Rightarrow> []) es)"

definition two_queries :: world where
  "two_queries =
     \<lparr>workbook_name = ''wb1'',
      doc = \<lparr>queries = [\<lparr>row_name = ''q1'', row_title = ''Query 1''\<rparr>,
                       \<lparr>row_name = ''q2'', row_title = ''Query 2''\<rparr>],
             charts = [\<lparr>row_name = ''c1'', row_title = ''Chart 1'',
                        chart_query = ''q1'', chart_type = ''Bar''\<rparr>],
             dashboards = [\<lparr>row_name = ''d1'', row_title = ''Dashboard 1''\<rparr>]\<rparr>,
      trace = []\<rparr>"

section \<open>Sharing permissions\<close>

text \<open>
  The UI knows the roles \<^verbatim>\<open>'view'\<close> and \<^verbatim>\<open>'edit'\<close> (and no role: \<^verbatim>\<open>undefined\<close>); the
  backend stores the flags \<^verbatim>\<open>read\<close> and \<^verbatim>\<open>write\<close> (\<open>perm_read\<close> and \<open>perm_write\<close> below).  A row of the backend's answer has
  \<^verbatim>\<open>user\<close>, \<^verbatim>\<open>full_name\<close>, \<^verbatim>\<open>read\<close>, \<^verbatim>\<open>write\<close>; a row sent to the backend has
  \<^verbatim>\<open>user\<close>, \<^verbatim>\<open>read\<close>, \<^verbatim>\<open>write\<close>.
\<close>

datatype access = View | Edit

record WorkbookUserPermission =
  email :: string
  full_name :: string
  access :: "access option"

record UpdateSharePermissionsArgs =
  user_permissions :: "WorkbookUserPermission list"
  organization_access :: "access option"

record backend_permission =
  user :: string
  backend_full_name :: string
  perm_read :: bool
  perm_write :: bool


record sent_permission =
  sent_user :: string
  sent_read :: bool
  sent_write :: bool

record sent_permissions =
  sent_workbook_name :: string
  sent_organization_access :: "access option"
  sent_user_permissions :: "sent_permission list"

text \<open>The callback of \<^verbatim>\<open>permissions.user_permissions.map\<close> in \<^verbatim>\<open>getSharePermissions\<close>:
  \<^verbatim>\<open>access: p.read ? (p.write ? 'edit' : 'view') : undefined\<close>.\<close>

definition from_backend :: "backend_permission \<Rightarrow> WorkbookUserPermission" where
  "from_backend p =
     \<lparr>email = user p,
      full_name = backend_full_name p,
      access = (if perm_read p then (if perm_write p then Some Edit else Some View) else None)\<rparr>"

text \<open>The callback of \<^verbatim>\<open>args.user_permissions.map\<close> in \<^verbatim>\<open>updateSharePermissions\<close>:
  \<^verbatim>\<open>read: p.access === 'view', write: p.access === 'edit'\<close>.\<close>

definition to_backend :: "WorkbookUserPermission \<Rightarrow> sent_permission" where
  "to_backend p =
     \<lparr>sent_user = email p,
      sent_read = (access p = Some View),
      sent_write = (access p = Some Edit)\<rparr>"

text \<open>The backend row that holds, for the same user, the flags that were sent.\<close>

definition stored :: "string \<Rightarrow> sent_permission \<Rightarrow> backend_permission" where
  "stored name p =
     \<lparr>user = sent_user p, backend_full_name = name,
      perm_read = sent_read p, perm_write = sent_write p\<rparr>"


definition updateSharePermissions_payload ::
  "UpdateSharePermissionsArgs \<Rightarrow> world \<Rightarrow> sent_permissions" where
  "updateSharePermissions_payload args w =
     \<lparr>sent_workbook_name = workbook_name w,
      sent_organization_access = organization_access args,
      sent_user_permissions = map to_backend (user_permissions args)\<rparr>"



definition editor :: WorkbookUserPermission where
  "editor = \<lparr>email = ''ann@example.com'', full_name = ''Ann'', access = Some Edit\<rparr>"

definition viewer :: WorkbookUserPermission where
  "viewer = \<lparr>email = ''bob@example.com'', full_name = ''Bob'', access = Some View\<rparr>"

section \<open>The auto-save controller\<close>

text \<open>
  \<^verbatim>\<open>stopAutoSaveWatcher\<close> holds the stop handle of the debounced watcher while one is
  registered, and nothing otherwise.  The watcher is registered with the options
  \<^verbatim>\<open>{ immediate: true, debounce: 2000 }\<close>; its source is
  \<^verbatim>\<open>workbook.isdirty && !_pauseAutoSave.value\<close> and its callback is
  \<^verbatim>\<open>(shouldSave) => shouldSave && workbook.save()\<close>.

  The debounced watcher hands each call of its callback to a timer: a call that arrives
  replaces the timer of the call before it, and when the debounce interval has passed the
  callback runs with the argument of the call that set the timer.  Stopping the watcher
  ends the watching of the source; it does not touch a timer that is already set, which
  still runs its callback.  So the state holds, besides the flags, the argument of the
  timer of the registered watcher (\<open>scheduled\<close>) and the arguments of the timers that
  stopped watchers left behind, oldest first (\<open>stale\<close>).
\<close>

record watch_options =
  immediate :: bool
  debounce :: nat

record autosave =
  enable_auto_save :: bool
  stopAutoSaveWatcher :: "watch_options option"
  isdirty :: bool
  pauseAutoSave :: bool
  scheduled :: "bool option"
  stale :: "bool list"
  saves :: nat

text \<open>The source of the watcher: \<^verbatim>\<open>() => workbook.isdirty && !_pauseAutoSave.value\<close>.\<close>

definition watch_source :: "autosave \<Rightarrow> bool" where
  "watch_source s \<longleftrightarrow> isdirty s \<and> \<not> pauseAutoSave s"

text \<open>The callback of the watcher: \<^verbatim>\<open>(shouldSave) => shouldSave && workbook.save()\<close>.\<close>

definition watcher_callback :: "bool \<Rightarrow> autosave \<Rightarrow> autosave" where
  "watcher_callback shouldSave s = (if shouldSave then s\<lparr>saves := saves s + 1\<rparr> else s)"

text \<open>\<^verbatim>\<open>watchDebounced(source, callback, options)\<close>: the watcher is registered; with
  \<^verbatim>\<open>immediate\<close> the callback is called at once with the value of the source, and that
  call sets the timer.  The result is the state with the stop handle stored.\<close>

definition watchDebounced :: "watch_options \<Rightarrow> autosave \<Rightarrow> autosave" where
  "watchDebounced options s =
     s\<lparr>stopAutoSaveWatcher := Some options,
       scheduled := (if immediate options then Some (watch_source s) else None)\<rparr>"

text \<open>Calling the stop handle: the source is watched no longer; a timer that is set stays
  set, now without a watcher.\<close>

definition call_stop_handle :: "autosave \<Rightarrow> autosave" where
  "call_stop_handle s =
     s\<lparr>stale := stale s @ (case scheduled s of None \<Rightarrow> [] | Some v \<Rightarrow> [v]),
       scheduled := None\<rparr>"

text \<open>The callback given to \<^verbatim>\<open>wheneverChanges\<close> for \<^verbatim>\<open>workbook.doc.enable_auto_save\<close>.\<close>

definition on_enable_auto_save_change :: "autosave \<Rightarrow> autosave" where
  "on_enable_auto_save_change s =
     (let s1 = (if \<not> enable_auto_save s \<and> stopAutoSaveWatcher s \<noteq> None
                then (call_stop_handle s)\<lparr>stopAutoSaveWatcher := None\<rparr> else s)
      in if enable_auto_save s1 \<and> stopAutoSaveWatcher s1 = None
         then watchDebounced \<lparr>immediate = True, debounce = 2000\<rparr> s1
         else s1)"

text \<open>A change of a flag the source reads: a registered watcher whose source has a new
  value calls its callback with it, which replaces the timer.\<close>

definition source_may_have_changed :: "bool \<Rightarrow> autosave \<Rightarrow> autosave" where
  "source_may_have_changed old s =
     (if stopAutoSaveWatcher s \<noteq> None \<and> watch_source s \<noteq> old
      then s\<lparr>scheduled := Some (watch_source s)\<rparr> else s)"

text \<open>
  Modelled from the spec: \<^verbatim>\<open>wheneverChanges\<close> (a helper that is not among the sources)
  runs its callback when the watched value changes.  The events are the changes of the
  three flags, which the user and the document resource make, and the passing of the
  debounce interval of a timer: of the timer of the registered watcher
  (\<open>DebounceElapsed\<close>) or of the oldest timer a stopped watcher left behind
  (\<open>StaleDebounceElapsed\<close>).  The interval is an event here, not a duration; an event for
  a timer that is not set does nothing.
\<close>

datatype event =
  SetEnableAutoSave bool | SetDirty bool | SetPause bool
  | DebounceElapsed | StaleDebounceElapsed

definition step :: "event \<Rightarrow> autosave \<Rightarrow> autosave" where
  "step ev s =
     (case ev of
        SetEnableAutoSave b \<Rightarrow>
          (if b = enable_auto_save s then s
           else on_enable_auto_save_change (s\<lparr>enable_auto_save := b\<rparr>))
      | SetDirty b \<Rightarrow> source_may_have_changed (watch_source s) (s\<lparr>isdirty := b\<rparr>)
      | SetPause b \<Rightarrow> source_may_have_changed (watch_source s) (s\<lparr>pauseAutoSave := b\<rparr>)
      | DebounceElapsed \<Rightarrow>
          (case scheduled s of
             None \<Rightarrow> s
           | Some shouldSave \<Rightarrow> watcher_callback shouldSave (s\<lparr>scheduled := None\<rparr>))
      | StaleDebounceElapsed \<Rightarrow>
          (case stale s of
             [] \<Rightarrow> s
           | shouldSave # rest \<Rightarrow> watcher_callback shouldSave (s\<lparr>stale := rest\<rparr>)))"

definition run :: "event list \<Rightarrow> autosave \<Rightarrow> autosave" where
  "run evs s = fold step evs s"

text \<open>A new workbook: the document has no \<^verbatim>\<open>enable_auto_save\<close> yet, no watcher is
  registered and no timer is set.\<close>

definition initial :: autosave where
  "initial = \<lparr>enable_auto_save = False, stopAutoSaveWatcher = None, isdirty = False,
              pauseAutoSave = False, scheduled = None, stale = [], saves = 0\<rparr>"

text \<open>The two states of the specification.\<close>

datatype mode = Idle | Watching

definition mode_of :: "autosave \<Rightarrow> mode" where
  "mode_of s = (if stopAutoSaveWatcher s = None then Idle else Watching)"

text \<open>What holds of every state the controller reaches.\<close>

definition controller_ok :: "autosave \<Rightarrow> bool" where
  "controller_ok s \<longleftrightarrow>
     (stopAutoSaveWatcher s \<noteq> None \<longleftrightarrow> enable_auto_save s) \<and>
     (stopAutoSaveWatcher s \<noteq> None \<longrightarrow>
        stopAutoSaveWatcher s = Some \<lparr>immediate = True, debounce = 2000\<rparr>) \<and>
     (\<forall>v. scheduled s = Some v \<longrightarrow> stopAutoSaveWatcher s \<noteq> None \<and> v = watch_source s)"

section \<open>Properties of linked-query resolution\<close>

subsection \<open>Insertion-ordered sets\<close>


lemma set_set_add: "set (set_add s x) = insert x (set s)"
  by (auto simp: set_add_def)

lemma distinct_set_add: "distinct s \<Longrightarrow> distinct (set_add s x)"
  by (simp add: set_add_def)

lemma set_add_all: "set (foldl set_add s xs) = set s \<union> set xs"
  by (induction xs arbitrary: s) (auto simp: set_set_add)

lemma distinct_add_all: "distinct s \<Longrightarrow> distinct (foldl set_add s xs)"
  by (induction xs arbitrary: s) (auto simp: distinct_set_add)

lemma add_all_extends: "\<exists>new. foldl set_add s xs = s @ new \<and> set new \<subseteq> set xs"
proof (induction xs arbitrary: s)
  case Nil
  show ?case by simp
next
  case (Cons x xs)
  obtain new where new: "foldl set_add (set_add s x) xs = set_add s x @ new" "set new \<subseteq> set xs"
    using Cons.IH by blast
  have "set_add s x = s @ (if x \<in> set s then [] else [x])"
    by (simp add: set_add_def)
  with new have "foldl set_add s (x # xs) = s @ ((if x \<in> set s then [] else [x]) @ new)"
    "set ((if x \<in> set s then [] else [x]) @ new) \<subseteq> set (x # xs)"
    by auto
  then show ?case by blast
qed

lemma add_all_absorb: "set xs \<subseteq> set s \<Longrightarrow> foldl set_add s xs = s"
  by (induction xs arbitrary: s) (auto simp: set_add_def)

lemma collect_op_refs: "foldl collect_op s ops = foldl set_add s (query_refs ops)"
  by (induction ops arbitrary: s)
     (auto simp: collect_op_def query_refs_def split: option.splits)

lemma collect_linked_refs:
  "collect_linked q = foldl set_add [] (query_refs (effective_operations q))"
  by (simp add: collect_linked_def collect_op_refs)

lemma distinct_collect_linked: "distinct (collect_linked q)"
  by (simp add: collect_linked_refs distinct_add_all)

lemma glq_run_Call:
  "glq_run useQuery (Call q) = glq_run useQuery (Loop (collect_linked (useQuery q)) 0)"
  by (subst glq_run.simps) simp

lemma glq_run_Loop_step:
  "i < length s \<Longrightarrow>
   glq_run useQuery (Loop s i) =
     Option.bind (glq_run useQuery (Call (s ! i)))
       (\<lambda>r. glq_run useQuery (Loop (foldl set_add s r) (Suc i)))"
  by (subst glq_run.simps) simp

lemma glq_run_Loop_done: "\<not> i < length s \<Longrightarrow> glq_run useQuery (Loop s i) = Some s"
  by (subst glq_run.simps) simp

lemma dependencies_unfold:
  "dependencies useQuery q =
     set (collect_linked (useQuery q)) \<union>
     (\<Union>r\<in>set (collect_linked (useQuery q)). dependencies useQuery r)"
proof -
  have "(r, q) \<in> (links useQuery)\<^sup>+ \<longleftrightarrow>
        (r, q) \<in> links useQuery \<or> (\<exists>p. (r, p) \<in> (links useQuery)\<^sup>+ \<and> (p, q) \<in> links useQuery)" for r
    by (metis trancl.simps)
  then show ?thesis
    by (auto simp: dependencies_def links_def)
qed

lemma dependencies_trans:
  "r \<in> dependencies useQuery p \<Longrightarrow> p \<in> dependencies useQuery q \<Longrightarrow> r \<in> dependencies useQuery q"
  by (auto simp: dependencies_def)


lemma loop_okD:
  assumes "loop_ok useQuery s i zs"
  shows "glq_run useQuery (Loop s i) = Some zs"
    and "distinct s \<Longrightarrow> distinct zs"
    and "set zs = set s \<union> (\<Union>r\<in>set (drop i s). dependencies useQuery r)"
    and "\<And>r. r \<in> set (drop i s) \<Longrightarrow> \<exists>ys. call_ok useQuery r ys"
    and "zs = foldl set_add s (concat (map (\<lambda>r. the (glq_run useQuery (Call r))) (drop i s)))"
    and "prefix s zs"
    and "\<And>r. r \<in> set (drop i zs) \<Longrightarrow> \<exists>ys. call_ok useQuery r ys"
  using assms unfolding loop_ok_def by blast+

lemma reaches_cycle_step:
  assumes "reaches_cycle useQuery q"
  shows "\<exists>r\<in>set (collect_linked (useQuery q)). reaches_cycle useQuery r"
proof -
  let ?R = "links useQuery"
  obtain c where c: "(c, q) \<in> ?R\<^sup>*" "(c, c) \<in> ?R\<^sup>+"
    using assms by (auto simp: reaches_cycle_def)
  have "(c, q) \<in> ?R\<^sup>+"
  proof (cases "c = q")
    case True with c show ?thesis by simp
  next
    case False with c(1) show ?thesis by (simp add: rtrancl_eq_or_trancl)
  qed
  then obtain r where r: "(c, r) \<in> ?R\<^sup>*" "(r, q) \<in> ?R"
    by (meson tranclD2)
  then have "r \<in> set (collect_linked (useQuery q))" by (simp add: links_def)
  moreover have "reaches_cycle useQuery r"
    using r(1) c(2) by (auto simp: reaches_cycle_def)
  ultimately show ?thesis by blast
qed

lemma loop_ok_done:
  assumes "\<not> i < length s"
  shows "loop_ok useQuery s i s"
  using assms by (simp add: loop_ok_def glq_run_Loop_done)

lemma loop_ok_step:
  assumes i: "i < length s"
    and c: "call_ok useQuery (s ! i) ys"
    and l: "loop_ok useQuery (foldl set_add s ys) (Suc i) zs"
  shows "loop_ok useQuery s i zs"
proof -
  let ?L = "\<lambda>r. the (glq_run useQuery (Call r))"
  let ?s' = "foldl set_add s ys"
  obtain new where new: "?s' = s @ new" and set_new: "set new \<subseteq> set ys"
    using add_all_extends[of s ys] by blast
  have ys: "glq_run useQuery (Call (s ! i)) = Some ys" "set ys = dependencies useQuery (s ! i)"
    using c by (auto simp: call_ok_def)
  have drop_i: "drop i s = s ! i # drop (Suc i) s"
    using i by (simp add: Cons_nth_drop_Suc)
  have drop': "drop (Suc i) ?s' = drop (Suc i) s @ new"
    using i new by simp
  have run: "glq_run useQuery (Loop s i) = Some zs"
    using loop_okD(1)[OF l] i ys by (simp add: glq_run_Loop_step)
  have dist: "distinct s \<longrightarrow> distinct zs"
    using loop_okD(2)[OF l] by (simp add: distinct_add_all)
  have calls': "\<forall>r\<in>set (drop (Suc i) ?s'). \<exists>ys. call_ok useQuery r ys"
    using loop_okD(4)[OF l] by blast
  have calls: "\<forall>r\<in>set (drop i s). \<exists>ys. call_ok useQuery r ys"
    using calls' c by (auto simp: drop_i drop')
  have dep_new: "(\<Union>r\<in>set new. dependencies useQuery r) \<subseteq> set ys"
  proof
    fix x assume "x \<in> (\<Union>r\<in>set new. dependencies useQuery r)"
    then obtain r where "r \<in> set new" "x \<in> dependencies useQuery r" by blast
    with set_new ys(2) have "r \<in> dependencies useQuery (s ! i)" "x \<in> dependencies useQuery r"
      by auto
    then have "x \<in> dependencies useQuery (s ! i)" by (rule dependencies_trans[rotated])
    with ys(2) show "x \<in> set ys" by simp
  qed
  have "set zs = set ?s' \<union> (\<Union>r\<in>set (drop (Suc i) ?s'). dependencies useQuery r)"
    by (rule loop_okD(3)[OF l])
  also have "\<dots> = set s \<union> set ys \<union> (\<Union>r\<in>set (drop (Suc i) s). dependencies useQuery r)
                   \<union> (\<Union>r\<in>set new. dependencies useQuery r)"
    by (auto simp: drop' set_add_all)
  also have "\<dots> = set s \<union> (\<Union>r\<in>set (drop i s). dependencies useQuery r)"
    using dep_new ys(2) by (auto simp: drop_i)
  finally have sets: "set zs = set s \<union> (\<Union>r\<in>set (drop i s). dependencies useQuery r)" .
  have L_new: "set (concat (map ?L new)) \<subseteq> set ys"
  proof
    fix x assume "x \<in> set (concat (map ?L new))"
    then obtain r where r: "r \<in> set new" "x \<in> set (?L r)" by auto
    then obtain ys' where "call_ok useQuery r ys'" using calls' by (auto simp: drop')
    then have "set (?L r) = dependencies useQuery r" by (simp add: call_ok_def)
    with r have "x \<in> (\<Union>r\<in>set new. dependencies useQuery r)" by blast
    with dep_new show "x \<in> set ys" by auto
  qed
  let ?rest = "concat (map ?L (drop (Suc i) s))"
  have "zs = foldl set_add ?s' (concat (map ?L (drop (Suc i) ?s')))"
    by (rule loop_okD(5)[OF l])
  also have "\<dots> = foldl set_add (foldl set_add ?s' ?rest) (concat (map ?L new))"
    by (simp add: drop')
  also have "\<dots> = foldl set_add ?s' ?rest"
    using L_new by (intro add_all_absorb) (auto simp: set_add_all)
  also have "\<dots> = foldl set_add s (concat (map ?L (drop i s)))"
    by (simp add: drop_i ys(1))
  finally have shape: "zs = foldl set_add s (concat (map ?L (drop i s)))" .
  have "prefix s ?s'" using new by simp
  then have pre: "prefix s zs"
    using loop_okD(6)[OF l] by (rule prefix_order.trans)
  then obtain more where more: "zs = s @ more" by (auto simp: prefix_def)
  then have "drop i zs = s ! i # drop (Suc i) zs"
    using i by (simp add: Cons_nth_drop_Suc[symmetric] nth_append)
  then have visited: "\<forall>r\<in>set (drop i zs). \<exists>ys. call_ok useQuery r ys"
    using loop_okD(7)[OF l] c by auto
  show ?thesis
    unfolding loop_ok_def by (intro conjI) (rule run dist sets calls shape pre visited)+
qed

lemma call_ok_intro:
  assumes "loop_ok useQuery (collect_linked (useQuery q)) 0 ys"
  shows "call_ok useQuery q ys"
proof -
  note l = loop_okD[OF assms]
  have "\<not> reaches_cycle useQuery q"
  proof
    assume "reaches_cycle useQuery q"
    then obtain r where "r \<in> set (collect_linked (useQuery q))" "reaches_cycle useQuery r"
      using reaches_cycle_step by blast
    with l(4)[of r] show False by (auto simp: call_ok_def)
  qed
  moreover have "set ys = dependencies useQuery q"
    using l(3) dependencies_unfold[of useQuery q] by simp
  moreover have "glq_run useQuery (Call q) = Some ys"
    using l(1) by (simp add: glq_run_Call)
  moreover have "distinct ys"
    using l(2) by (simp add: distinct_collect_linked)
  ultimately show ?thesis
    by (simp add: call_ok_def)
qed

lemma glq_run_frame_ok:
  assumes "glq_run useQuery fr = Some zs"
  shows "frame_ok useQuery fr zs"
proof (rule glq_run.raw_induct[OF _ assms])
  fix f useQuery fr zs
  assume IH: "\<And>u fr y. f u fr = Some y \<Longrightarrow> frame_ok u fr y"
    and step: "(case fr of
        Call qname \<Rightarrow>
          (let query = useQuery qname;
               linkedQueries = collect_linked query
           in f useQuery (Loop linkedQueries 0))
      | Loop linkedQueries i \<Rightarrow>
          (if i < length linkedQueries then
             Option.bind (f useQuery (Call (linkedQueries ! i)))
               (\<lambda>r. f useQuery (Loop (foldl set_add linkedQueries r) (Suc i)))
           else Some linkedQueries)) = Some zs"
  note 1 = IH step
  show "frame_ok useQuery fr zs"
  proof (cases fr)
    case (Call q)
    with 1(2) have "f useQuery (Loop (collect_linked (useQuery q)) 0) = Some zs" by simp
    then have "loop_ok useQuery (collect_linked (useQuery q)) 0 zs"
      using 1(1) by (force simp: frame_ok_def)
    then show ?thesis by (simp add: Call frame_ok_def call_ok_intro)
  next
    case (Loop s i)
    show ?thesis
    proof (cases "i < length s")
      case True
      with 1(2) Loop obtain ys where
        ys: "f useQuery (Call (s ! i)) = Some ys"
        and zs: "f useQuery (Loop (foldl set_add s ys) (Suc i)) = Some zs"
        by (auto simp: bind_eq_Some_conv)
      have "call_ok useQuery (s ! i) ys"
        using 1(1)[OF ys] by (simp add: frame_ok_def)
      moreover have "loop_ok useQuery (foldl set_add s ys) (Suc i) zs"
        using 1(1)[OF zs] by (simp add: frame_ok_def)
      ultimately show ?thesis
        using True by (simp add: Loop frame_ok_def loop_ok_step)
    next
      case False
      with 1(2) Loop have "zs = s" by simp
      with False show ?thesis by (simp add: Loop frame_ok_def loop_ok_done)
    qed
  qed
qed


lemma call_okI:
  "glq_run useQuery (Call q) = Some ys \<Longrightarrow> call_ok useQuery q ys"
  using glq_run_frame_ok[of useQuery "Call q" ys] by (simp add: frame_ok_def)

lemma loop_returns:
  assumes fin: "finite S"
    and closed: "\<And>r. r \<in> S \<Longrightarrow> \<exists>ys. glq_run useQuery (Call r) = Some ys \<and> set ys \<subseteq> S"
  shows "distinct s \<Longrightarrow> set s \<subseteq> S \<Longrightarrow> \<exists>zs. glq_run useQuery (Loop s i) = Some zs"
proof (induction "card S - i" arbitrary: s i rule: less_induct)
  case less
  show ?case
  proof (cases "i < length s")
    case False
    then show ?thesis by (simp add: glq_run_Loop_done)
  next
    case True
    have "length s \<le> card S"
      using less.prems fin by (metis card_mono distinct_card)
    with True have lt: "card S - Suc i < card S - i" by simp
    have "s ! i \<in> S" using True less.prems by auto
    then obtain ys where ys: "glq_run useQuery (Call (s ! i)) = Some ys" "set ys \<subseteq> S"
      using closed by blast
    have "distinct (foldl set_add s ys)" "set (foldl set_add s ys) \<subseteq> S"
      using less.prems ys(2) by (simp_all add: distinct_add_all set_add_all)
    then obtain zs where "glq_run useQuery (Loop (foldl set_add s ys) (Suc i)) = Some zs"
      using less.hyps[OF lt] by blast
    with True ys(1) show ?thesis by (simp add: glq_run_Loop_step)
  qed
qed

lemma links_from_trancl:
  assumes "(r, p) \<in> (links useQuery)\<^sup>+" and "(p, q) \<in> (links useQuery)\<^sup>*"
  shows "(r, p) \<in> (links_from useQuery q)\<^sup>+"
  using assms
proof (induction rule: trancl_induct)
  case (base y)
  then show ?case by (simp add: links_from_def r_into_trancl)
next
  case (step y z)
  have "(y, z) \<in> links_from useQuery q"
    using step by (simp add: links_from_def)
  moreover have "(y, q) \<in> (links useQuery)\<^sup>*"
    using step by (meson converse_rtrancl_into_rtrancl)
  ultimately show ?case
    using step.IH by (meson trancl.trancl_into_trancl)
qed

lemma call_returns:
  assumes wf: "wf (links_from useQuery q)"
  shows "(p, q) \<in> (links useQuery)\<^sup>* \<Longrightarrow> \<exists>ys. glq_run useQuery (Call p) = Some ys"
proof (induction p rule: wf_induct_rule[OF wf_trancl[OF wf]])
  case (1 p)
  let ?s = "collect_linked (useQuery p)"
  let ?S = "dependencies useQuery p"
  have each: "\<exists>ys. glq_run useQuery (Call r) = Some ys \<and> set ys \<subseteq> ?S" if "r \<in> ?S" for r
  proof -
    have rp: "(r, p) \<in> (links useQuery)\<^sup>+" using that by (simp add: dependencies_def)
    then have "(r, p) \<in> (links_from useQuery q)\<^sup>+"
      using "1.prems" by (rule links_from_trancl)
    moreover have "(r, q) \<in> (links useQuery)\<^sup>*"
      using rp "1.prems" by (meson trancl_into_rtrancl rtrancl_trans)
    ultimately obtain ys where ys: "glq_run useQuery (Call r) = Some ys"
      using "1.IH" by blast
    then have "set ys = dependencies useQuery r"
      using call_okI by (simp add: call_ok_def)
    then have "set ys \<subseteq> ?S"
      using that dependencies_trans by blast
    with ys show ?thesis by blast
  qed
  have "?S = set ?s \<union> (\<Union>r\<in>set ?s. dependencies useQuery r)"
    by (rule dependencies_unfold)
  moreover have "finite (dependencies useQuery r)" if "r \<in> set ?s" for r
  proof -
    have "r \<in> ?S" using that dependencies_unfold[of useQuery p] by blast
    then obtain ys where "glq_run useQuery (Call r) = Some ys" using each by blast
    then have "set ys = dependencies useQuery r"
      using call_okI by (simp add: call_ok_def)
    then show ?thesis by (metis List.finite_set)
  qed
  ultimately have fin: "finite ?S" by simp
  have "set ?s \<subseteq> ?S" using dependencies_unfold[of useQuery p] by blast
  then obtain zs where "glq_run useQuery (Loop ?s 0) = Some zs"
    using loop_returns[OF fin each distinct_collect_linked] by blast
  then show ?case by (simp add: glq_run_Call)
qed

lemma getLinkedQueries_returns:
  assumes "wf (links_from useQuery q)"
  shows "\<exists>ys. getLinkedQueries useQuery q = Some ys \<and> distinct ys \<and>
              set ys = dependencies useQuery q"
proof -
  obtain ys where ys: "glq_run useQuery (Call q) = Some ys"
    using call_returns[OF assms, of q] by blast
  then have "call_ok useQuery q ys" by (rule call_okI)
  then show ?thesis by (simp add: call_ok_def getLinkedQueries_def)
qed

lemma getLinkedQueries_cycle:
  assumes "reaches_cycle useQuery q"
  shows "getLinkedQueries useQuery q = None"
proof (cases "getLinkedQueries useQuery q")
  case None then show ?thesis .
next
  case (Some ys)
  then have "call_ok useQuery q ys" by (simp add: getLinkedQueries_def call_okI)
  with assms show ?thesis by (simp add: call_ok_def)
qed


lemma returns_wf:
  assumes "glq_run useQuery (Call q) = Some ys"
  shows "wf (links_from useQuery q)"
proof (rule finite_acyclic_wf)
  have ok: "call_ok useQuery q ys" using assms by (rule call_okI)
  have "links_from useQuery q \<subseteq> set ys \<times> insert q (set ys)"
  proof
    fix x assume "x \<in> links_from useQuery q"
    then obtain r p where x: "x = (r, p)" "(r, p) \<in> links useQuery" "(p, q) \<in> (links useQuery)\<^sup>*"
      by (auto simp: links_from_def)
    then have "(r, q) \<in> (links useQuery)\<^sup>+" by (meson rtrancl_into_trancl2)
    moreover have "p = q \<or> (p, q) \<in> (links useQuery)\<^sup>+"
      using x(3) by (meson rtranclD)
    ultimately show "x \<in> set ys \<times> insert q (set ys)"
      using ok x(1) by (auto simp: call_ok_def dependencies_def)
  qed
  then show "finite (links_from useQuery q)"
    by (rule finite_subset) simp
  show "acyclic (links_from useQuery q)"
  proof (rule acyclicI, rule allI, rule notI)
    fix x assume cyc: "(x, x) \<in> (links_from useQuery q)\<^sup>+"
    have sub: "links_from useQuery q \<subseteq> links useQuery" by (auto simp: links_from_def)
    have "(x, x) \<in> (links useQuery)\<^sup>+" using cyc trancl_mono[OF _ sub] by blast
    moreover obtain z where "(x, z) \<in> links_from useQuery q"
      using cyc by (meson tranclD)
    then have "(x, q) \<in> (links useQuery)\<^sup>*"
      by (auto simp: links_from_def intro: converse_rtrancl_into_rtrancl)
    ultimately have "reaches_cycle useQuery q" by (auto simp: reaches_cycle_def)
    with ok show False by (simp add: call_ok_def)
  qed
qed


lemma set_query_refs:
  "set (query_refs ops) =
     {query_name t |t op. op \<in> set ops \<and> table op = Some t \<and> table_type t = Some ''query''}"
proof -
  have "(case table op of None \<Rightarrow> [] | Some t \<Rightarrow> if table_type t = Some ''query'' then [query_name t] else [])
        = (if (\<exists>t. table op = Some t \<and> table_type t = Some ''query'')
           then [query_name (the (table op))] else [])" for op :: operation
    by (cases "table op") auto
  then have "query_refs ops = concat (map (\<lambda>op.
       if (\<exists>t. table op = Some t \<and> table_type t = Some ''query'')
       then [query_name (the (table op))] else []) ops)"
    by (simp add: query_refs_def)
  then show ?thesis by force
qed

lemma effective_operations_alt:
  "effective_operations query =
     (if activeEditIndex query < 0 then currentOperations query
      else take (nat (activeEditIndex query)) (currentOperations query))"
  by (auto simp: effective_operations_def)

lemma collect_linked_acyclic:
  "collect_linked (acyclic_queries n) =
     (if n = ''a'' then [''b'', ''c''] else if n = ''b'' then [''c''] else [])"
  by (simp add: acyclic_queries_def collect_linked_def effective_operations_def
      loaded_query_def from_query_def from_table_def no_table_def collect_op_def set_add_def)

lemma collect_linked_cyclic:
  "collect_linked (cyclic_queries n) =
     (if n = ''a'' then [''b''] else if n = ''b'' then [''a''] else [])"
  by (simp add: cyclic_queries_def collect_linked_def effective_operations_def
      loaded_query_def from_query_def collect_op_def set_add_def)

lemma wf_acyclic_queries: "wf (links_from acyclic_queries q)"
proof (rule wf_subset[OF wf_measure[of acyclic_rank]])
  show "links_from acyclic_queries q \<subseteq> measure acyclic_rank"
    by (auto simp: links_from_def links_def collect_linked_acyclic acyclic_rank_def
        split: if_splits)
qed

lemma reaches_cycle_cyclic_queries: "reaches_cycle cyclic_queries ''a''"
proof -
  have "(''b'', ''a'') \<in> links cyclic_queries" "(''a'', ''b'') \<in> links cyclic_queries"
    by (simp_all add: links_def collect_linked_cyclic)
  then have "(''a'', ''a'') \<in> (links cyclic_queries)\<^sup>+"
    by (meson trancl.r_into_trancl trancl_trans)
  then show ?thesis by (auto simp: reaches_cycle_def)
qed

lemma getLinkedQueries_acyclic_value:
  "getLinkedQueries acyclic_queries ''a'' = Some [''b'', ''c'']"
  by (simp add: getLinkedQueries_def glq_run_Call glq_run_Loop_step glq_run_Loop_done
      collect_linked_acyclic set_add_def)

text \<open>
  Claim C1, as the code has it.  \<^verbatim>\<open>getLinkedQueries\<close> returns when the part of the
  reference graph that the starting query reaches has no infinite chain of references
  (for the finitely many queries of a workbook: no cycle); then the list it returns holds
  every dependency of the starting query, each exactly once.  It returns in no other case:
  the set that removes duplicates is local to each call, so a cycle that the starting query
  reaches makes the recursion go on for ever.
\<close>

theorem getLinkedQueries_returns_iff_acyclic:
  "(wf (links_from useQuery q) \<longrightarrow>
      (\<exists>ys. getLinkedQueries useQuery q = Some ys \<and> distinct ys \<and>
            set ys = dependencies useQuery q)) \<and>
   (\<not> wf (links_from useQuery q) \<longrightarrow> getLinkedQueries useQuery q = None) \<and>
   (reaches_cycle useQuery q \<longrightarrow> \<not> wf (links_from useQuery q))"
proof (intro conjI impI)
  assume "wf (links_from useQuery q)"
  then show "\<exists>ys. getLinkedQueries useQuery q = Some ys \<and> distinct ys \<and>
                  set ys = dependencies useQuery q"
    by (rule getLinkedQueries_returns)
next
  assume "\<not> wf (links_from useQuery q)"
  then show "getLinkedQueries useQuery q = None"
    using returns_wf[of useQuery q] by (cases "getLinkedQueries useQuery q")
      (auto simp: getLinkedQueries_def)
next
  assume "reaches_cycle useQuery q"
  then have "getLinkedQueries useQuery q = None" by (rule getLinkedQueries_cycle)
  then show "\<not> wf (links_from useQuery q)"
    using getLinkedQueries_returns[of useQuery q] by auto
qed

text \<open>Both cases on the example registries: the acyclic one returns \<open>b\<close> and \<open>c\<close>, the
  cyclic one does not return.\<close>

theorem getLinkedQueries_returns_iff_acyclic_witness:
  "wf (links_from acyclic_queries ''a'') \<and>
   (\<exists>ys. getLinkedQueries acyclic_queries ''a'' = Some ys \<and> distinct ys \<and>
         set ys = dependencies acyclic_queries ''a'') \<and>
   getLinkedQueries acyclic_queries ''a'' = Some [''b'', ''c''] \<and>
   reaches_cycle cyclic_queries ''a'' \<and>
   \<not> wf (links_from cyclic_queries ''a'') \<and>
   getLinkedQueries cyclic_queries ''a'' = None"
  using getLinkedQueries_returns_iff_acyclic[of acyclic_queries "''a''"]
    getLinkedQueries_returns_iff_acyclic[of cyclic_queries "''a''"]
    wf_acyclic_queries[of "''a''"] reaches_cycle_cyclic_queries getLinkedQueries_acyclic_value
  by blast

text \<open>Claim C1 as stated fails: with \<open>a\<close> reading from \<open>b\<close> and \<open>b\<close> from \<open>a\<close>, the
  call for \<open>a\<close> never returns.\<close>

theorem getLinkedQueries_cyclic_counterexample:
  "getLinkedQueries cyclic_queries ''a'' = None"
  using reaches_cycle_cyclic_queries by (rule getLinkedQueries_cycle)

lemma visited_return:
  assumes "glq_run useQuery (Call r) = Some ys" and "x \<in> set ys"
  shows "\<exists>xs. glq_run useQuery (Call x) = Some xs \<and> set xs \<subseteq> set ys"
proof -
  let ?c = "collect_linked (useQuery r)"
  have "glq_run useQuery (Loop ?c 0) = Some ys"
    using assms(1) by (simp add: glq_run_Call)
  then have "loop_ok useQuery ?c 0 ys"
    using glq_run_frame_ok[of useQuery "Loop ?c 0" ys] by (simp add: frame_ok_def)
  then obtain xs where xs: "call_ok useQuery x xs"
    using loop_okD(7)[of useQuery ?c 0 ys x] assms(2) by auto
  have "set ys = dependencies useQuery r"
    using call_okI[OF assms(1)] by (simp add: call_ok_def)
  with assms(2) xs have "set xs \<subseteq> set ys"
    using dependencies_trans[of _ useQuery x r] by (auto simp: call_ok_def)
  with xs show ?thesis by (auto simp: call_ok_def)
qed

lemma call_returns_from_direct:
  assumes "\<forall>r\<in>set (collect_linked (useQuery q)). \<exists>ys. glq_run useQuery (Call r) = Some ys"
  shows "\<exists>ys. glq_run useQuery (Call q) = Some ys"
proof -
  let ?c = "collect_linked (useQuery q)"
  let ?S = "dependencies useQuery q"
  have unfold: "?S = set ?c \<union> (\<Union>r\<in>set ?c. dependencies useQuery r)"
    by (rule dependencies_unfold)
  have direct: "\<exists>ys. glq_run useQuery (Call r) = Some ys \<and> set ys = dependencies useQuery r"
    if r: "r \<in> set ?c" for r
  proof -
    obtain ys where "glq_run useQuery (Call r) = Some ys"
      using bspec[OF assms r] by blast
    then show ?thesis using call_okI[of useQuery r ys] by (auto simp: call_ok_def)
  qed
  have each: "\<exists>ys. glq_run useQuery (Call x) = Some ys \<and> set ys \<subseteq> ?S" if "x \<in> ?S" for x
  proof -
    have "x \<in> set ?c \<union> (\<Union>r\<in>set ?c. dependencies useQuery r)"
      using that by (simp only: unfold[symmetric])
    then consider "x \<in> set ?c" | r where "r \<in> set ?c" "x \<in> dependencies useQuery r"
      by blast
    then show ?thesis
    proof cases
      case 1
      obtain ys where "glq_run useQuery (Call x) = Some ys" "set ys = dependencies useQuery x"
        using direct[OF 1] by blast
      moreover have "dependencies useQuery x \<subseteq> ?S"
        using that dependencies_trans by blast
      ultimately show ?thesis by auto
    next
      case 2
      obtain ys where ys: "glq_run useQuery (Call r) = Some ys"
        "set ys = dependencies useQuery r"
        using direct[OF 2(1)] by blast
      then obtain xs where "glq_run useQuery (Call x) = Some xs" "set xs \<subseteq> set ys"
        using visited_return[of useQuery r ys x] 2(2) by auto
      moreover have "set ys \<subseteq> ?S" using ys(2) 2(1) unfold by blast
      ultimately show ?thesis by blast
    qed
  qed
  have "finite (dependencies useQuery r)" if "r \<in> set ?c" for r
    using direct[OF that] by (metis List.finite_set)
  then have fin: "finite ?S" using unfold by simp
  have "set ?c \<subseteq> ?S" using unfold by blast
  then obtain zs where "glq_run useQuery (Loop ?c 0) = Some zs"
    using loop_returns[OF fin each distinct_collect_linked] by blast
  then show ?thesis by (simp add: glq_run_Call)
qed

lemma getLinkedQueries_unfold:
  "getLinkedQueries useQuery q =
     (if \<forall>r\<in>set (collect_linked (useQuery q)). getLinkedQueries useQuery r \<noteq> None
      then Some (foldl set_add (collect_linked (useQuery q))
                   (concat (map (\<lambda>r. the (getLinkedQueries useQuery r))
                              (collect_linked (useQuery q)))))
      else None)"
proof (cases "getLinkedQueries useQuery q")
  case None
  have "\<not> (\<forall>r\<in>set (collect_linked (useQuery q)). getLinkedQueries useQuery r \<noteq> None)"
  proof
    assume "\<forall>r\<in>set (collect_linked (useQuery q)). getLinkedQueries useQuery r \<noteq> None"
    then have "\<forall>r\<in>set (collect_linked (useQuery q)). \<exists>ys. glq_run useQuery (Call r) = Some ys"
      by (auto simp: getLinkedQueries_def)
    from call_returns_from_direct[OF this] None show False
      by (simp add: getLinkedQueries_def)
  qed
  with None show ?thesis by simp
next
  case (Some ys)
  let ?c = "collect_linked (useQuery q)"
  have "glq_run useQuery (Loop ?c 0) = Some ys"
    using Some by (simp add: getLinkedQueries_def glq_run_Call)
  then have "loop_ok useQuery ?c 0 ys"
    using glq_run_frame_ok[of useQuery "Loop ?c 0" ys] by (simp add: frame_ok_def)
  note l = loop_okD[OF this]
  have each: "\<forall>r\<in>set ?c. getLinkedQueries useQuery r \<noteq> None"
    using l(4) by (auto simp: call_ok_def getLinkedQueries_def)
  have "ys = foldl set_add ?c (concat (map (\<lambda>r. the (getLinkedQueries useQuery r)) ?c))"
    using l(5) by (simp add: getLinkedQueries_def)
  with Some each show ?thesis by simp
qed

text \<open>
  Claim C6, as the code has it.  \<^verbatim>\<open>getLinkedQueries\<close> looks at the current operations of the query, cut at
  the active edit index when there is one (an index of \<open>-1\<close> means there is none);
  collects the names of exactly the operations whose table has type \<^verbatim>\<open>'query'\<close>, each
  once, in the order of their first occurrence; and recurses into each collected query.
  When these recursive calls return, it returns the collected names followed by what the
  recursive calls returned, in that order, every name at its first occurrence only; when
  one of them does not return, it does not return either.
\<close>

theorem getLinkedQueries_insertion_order:
  "let query = useQuery q;
       ops = (if activeEditIndex query < 0 then currentOperations query
              else take (nat (activeEditIndex query)) (currentOperations query));
       collected = foldl set_add [] (query_refs ops)
   in set collected =
        {query_name t |t op. op \<in> set ops \<and> table op = Some t \<and>
                             table_type t = Some ''query''} \<and>
      distinct collected \<and>
      getLinkedQueries useQuery q =
        (if \<forall>r\<in>set collected. getLinkedQueries useQuery r \<noteq> None
         then Some (foldl set_add collected
                      (concat (map (\<lambda>r. the (getLinkedQueries useQuery r)) collected)))
         else None)"
proof -
  let ?c = "collect_linked (useQuery q)"
  have c: "?c = foldl set_add [] (query_refs
      (if activeEditIndex (useQuery q) < 0 then currentOperations (useQuery q)
       else take (nat (activeEditIndex (useQuery q))) (currentOperations (useQuery q))))"
    by (simp only: collect_linked_refs effective_operations_alt)
  have s: "set ?c = {query_name t |t op. op \<in> set
      (if activeEditIndex (useQuery q) < 0 then currentOperations (useQuery q)
       else take (nat (activeEditIndex (useQuery q))) (currentOperations (useQuery q))) \<and>
        table op = Some t \<and> table_type t = Some ''query''}"
    by (simp only: c set_add_all set_query_refs) simp
  show ?thesis
    unfolding Let_def c[symmetric]
    by (intro conjI) (rule s distinct_collect_linked getLinkedQueries_unfold)+
qed

lemma getLinkedQueries_acyclic_b_c:
  "getLinkedQueries acyclic_queries ''b'' = Some [''c'']"
  "getLinkedQueries acyclic_queries ''c'' = Some []"
  by (simp_all add: getLinkedQueries_def glq_run_Call glq_run_Loop_step glq_run_Loop_done
      collect_linked_acyclic set_add_def)

text \<open>On the example: \<open>a\<close> is cut at index 3, so \<open>d\<close> is not collected; the calls for
  \<open>b\<close> and \<open>c\<close> return, and the call for \<open>a\<close> returns \<open>b\<close> and \<open>c\<close>.\<close>

theorem getLinkedQueries_insertion_order_witness:
  "getLinkedQueries acyclic_queries ''b'' = Some [''c''] \<and>
   getLinkedQueries acyclic_queries ''c'' = Some [] \<and>
   getLinkedQueries acyclic_queries ''a'' =
     Some (foldl set_add [''b'', ''c'']
             (concat (map (\<lambda>r. the (getLinkedQueries acyclic_queries r)) [''b'', ''c'']))) \<and>
   getLinkedQueries acyclic_queries ''a'' = Some [''b'', ''c'']"
proof -
  have c: "foldl set_add [] (query_refs
      (if activeEditIndex (acyclic_queries ''a'') < 0 then currentOperations (acyclic_queries ''a'')
       else take (nat (activeEditIndex (acyclic_queries ''a'')))
              (currentOperations (acyclic_queries ''a'')))) = [''b'', ''c'']"
    by (simp add: acyclic_queries_def loaded_query_def query_refs_def from_query_def set_add_def)
  have r: "\<forall>r\<in>set [''b'', ''c'']. getLinkedQueries acyclic_queries r \<noteq> None"
    by (simp add: getLinkedQueries_acyclic_b_c)
  have v: "foldl set_add [''b'', ''c'']
             (concat (map (\<lambda>r. the (getLinkedQueries acyclic_queries r)) [''b'', ''c''])) =
           [''b'', ''c'']"
    by (simp add: getLinkedQueries_acyclic_b_c set_add_def)
  show ?thesis
    using getLinkedQueries_insertion_order[of acyclic_queries "''a''"] r
      getLinkedQueries_acyclic_b_c
    unfolding Let_def c v by simp
qed

lemma reaches_cycle_cyclic_queries_b: "reaches_cycle cyclic_queries ''b''"
proof -
  have "(''b'', ''a'') \<in> links cyclic_queries" "(''a'', ''b'') \<in> links cyclic_queries"
    by (simp_all add: links_def collect_linked_cyclic)
  then have "(''b'', ''b'') \<in> (links cyclic_queries)\<^sup>+"
    by (meson trancl.r_into_trancl trancl_trans)
  then show ?thesis by (auto simp: reaches_cycle_def)
qed

text \<open>Claim C6 as stated fails: a list is not returned for every query.  Query \<open>b\<close> of the
  cyclic registry collects \<open>a\<close>; the call for \<open>a\<close> does not return, and so the call for
  \<open>b\<close> returns no list.\<close>

theorem getLinkedQueries_no_list_counterexample:
  "collect_linked (cyclic_queries ''b'') = [''a''] \<and>
   getLinkedQueries cyclic_queries ''a'' = None \<and>
   getLinkedQueries cyclic_queries ''b'' = None"
  using getLinkedQueries_cycle[OF reaches_cycle_cyclic_queries]
    getLinkedQueries_cycle[OF reaches_cycle_cyclic_queries_b]
  by (simp add: collect_linked_cyclic)

section \<open>Properties of the workbook registry\<close>

lemma useWorkbook_hit:
  "workbooks s (String_js v) = Some w \<Longrightarrow> useWorkbook v s = (w, s)"
  by (simp add: useWorkbook_def Let_def)

lemma useWorkbook_miss:
  "workbooks s (String_js v) = None \<Longrightarrow>
   useWorkbook v s =
     (length (objects s),
      s\<lparr>objects := objects s @ [\<lparr>resource_name = String_js v, showSidebar = True\<rparr>],
        workbooks := (workbooks s)(String_js v \<mapsto> length (objects s))\<rparr>)"
  by (simp add: useWorkbook_def makeWorkbook_def Let_def)

lemma useWorkbook_cached:
  "workbooks (snd (useWorkbook v s)) (String_js v) = Some (fst (useWorkbook v s))"
  by (cases "workbooks s (String_js v)") (simp_all add: useWorkbook_hit useWorkbook_miss)

lemma useWorkbook_keeps:
  "workbooks s n = Some w \<Longrightarrow> workbooks (snd (useWorkbook u s)) n = Some w"
  by (cases "workbooks s (String_js u)") (auto simp: useWorkbook_hit useWorkbook_miss)

lemma useWorkbook_objects: "prefix (objects s) (objects (snd (useWorkbook u s)))"
  by (cases "workbooks s (String_js u)") (simp_all add: useWorkbook_hit useWorkbook_miss)

lemma use_all_keeps:
  "workbooks s n = Some w \<Longrightarrow> workbooks (use_all us s) n = Some w"
  unfolding use_all_def by (induction us arbitrary: s) (simp_all add: useWorkbook_keeps)

lemma use_all_objects: "prefix (objects s) (objects (use_all us s))"
  unfolding use_all_def
proof (induction us arbitrary: s)
  case Nil
  show ?case by simp
next
  case (Cons u us)
  show ?case
    using prefix_order.trans[OF useWorkbook_objects[of s u] Cons[of "snd (useWorkbook u s)"]]
    by simp
qed

text \<open>
  Claim C2.  After a first request for an identifier, every later request for it, whatever
  other identifiers were requested in between, returns the reference the first request
  returned and leaves the session as it is: no new object is made.  The objects of the
  store are only ever added to, so the reference denotes the same object throughout.  The
  first request for an identifier that is not yet registered makes a new object and
  registers it.
\<close>

theorem useWorkbook_same_instance:
  "useWorkbook v (use_all us (snd (useWorkbook v s))) =
     (fst (useWorkbook v s), use_all us (snd (useWorkbook v s))) \<and>
   prefix (objects (snd (useWorkbook v s))) (objects (use_all us (snd (useWorkbook v s)))) \<and>
   workbooks (snd (useWorkbook v s)) (String_js v) = Some (fst (useWorkbook v s)) \<and>
   (workbooks s (String_js v) = None \<longrightarrow>
      fst (useWorkbook v s) = length (objects s) \<and>
      objects (snd (useWorkbook v s)) =
        objects s @ [\<lparr>resource_name = String_js v, showSidebar = True\<rparr>])"
proof (intro conjI impI)
  show "useWorkbook v (use_all us (snd (useWorkbook v s))) =
     (fst (useWorkbook v s), use_all us (snd (useWorkbook v s)))"
    by (rule useWorkbook_hit, rule use_all_keeps, rule useWorkbook_cached)
  show "prefix (objects (snd (useWorkbook v s))) (objects (use_all us (snd (useWorkbook v s))))"
    by (rule use_all_objects)
  show "workbooks (snd (useWorkbook v s)) (String_js v) = Some (fst (useWorkbook v s))"
    by (rule useWorkbook_cached)
next
  assume "workbooks s (String_js v) = None"
  then show "fst (useWorkbook v s) = length (objects s)"
    "objects (snd (useWorkbook v s)) =
        objects s @ [\<lparr>resource_name = String_js v, showSidebar = True\<rparr>]"
    by (simp_all add: useWorkbook_miss)
qed

text \<open>In a new session the first request for \<open>wb1\<close> makes object 0, and a later request
  returns object 0 again.\<close>

theorem useWorkbook_same_instance_witness:
  "workbooks new_session (String_js (JSString ''wb1'')) = None \<and>
   useWorkbook (JSString ''wb1'') new_session =
     (0, \<lparr>objects = [\<lparr>resource_name = ''wb1'', showSidebar = True\<rparr>],
          workbooks = [''wb1'' \<mapsto> 0]\<rparr>) \<and>
   fst (useWorkbook (JSString ''wb1'')
         (use_all [JSString ''wb2'', JSString ''wb1''] (snd (useWorkbook (JSString ''wb1'') new_session))))
     = 0"
proof -
  have none: "workbooks new_session (String_js (JSString ''wb1'')) = None"
    by (simp add: new_session_def)
  have first: "useWorkbook (JSString ''wb1'') new_session =
     (0, \<lparr>objects = [\<lparr>resource_name = ''wb1'', showSidebar = True\<rparr>],
          workbooks = [''wb1'' \<mapsto> 0]\<rparr>)"
    by (simp add: useWorkbook_def makeWorkbook_def new_session_def String_js_def Let_def)
  show ?thesis
    using useWorkbook_same_instance[of "JSString ''wb1''" "[JSString ''wb2'', JSString ''wb1'']" new_session]
      none first
    by simp
qed

lemma digit_char_inj:
  assumes "a < 10" "b < 10" "''0123456789'' ! a = ''0123456789'' ! b"
  shows "a = b"
proof -
  have "distinct ''0123456789''" by simp
  moreover have "a < length ''0123456789''" "b < length ''0123456789''"
    using assms by simp_all
  ultimately show ?thesis using assms(3) by (simp only: nth_eq_iff_index_eq)
qed

lemma digits_nonempty: "digits n \<noteq> []"
  by (subst digits.simps) simp

lemma digits_chars: "set (digits n) \<subseteq> set ''0123456789''"
proof (induction n rule: digits.induct)
  case (1 n)
  have d: "''0123456789'' ! k \<in> set ''0123456789''" if "k < 10" for k
    using that by (intro nth_mem) simp
  show ?case
  proof (cases "n < 10")
    case True
    then show ?thesis using d[of n] by (subst digits.simps) simp
  next
    case False
    then show ?thesis
      using 1 d[of "n mod 10"] by (subst digits.simps) simp
  qed
qed

lemma digits_inj: "digits m = digits n \<Longrightarrow> m = n"
proof (induction m arbitrary: n rule: digits.induct)
  case (1 m)
  note eq = \<open>digits m = digits n\<close>
  have long: "length (digits k) \<ge> 2" if "\<not> k < 10" for k
  proof -
    have "digits k = digits (k div 10) @ [''0123456789'' ! (k mod 10)]"
      using that by (subst digits.simps) simp
    moreover have "length (digits (k div 10)) \<ge> 1"
      using digits_nonempty[of "k div 10"] by (cases "digits (k div 10)") simp_all
    ultimately show ?thesis by simp
  qed
  have short: "digits k = [''0123456789'' ! k]" if "k < 10" for k
    using that by (subst digits.simps) simp
  show ?case
  proof (cases "m < 10")
    case True
    show ?thesis
    proof (cases "n < 10")
      case n: True
      have "''0123456789'' ! m = ''0123456789'' ! n"
        using eq short[OF True] short[OF n] by simp
      then show ?thesis using True n by (intro digit_char_inj)
    next
      case False
      have "length (digits m) = 1" using short[OF True] by simp
      moreover have "length (digits n) \<ge> 2" by (rule long[OF False])
      ultimately show ?thesis using eq by simp
    qed
  next
    case False
    show ?thesis
    proof (cases "n < 10")
      case True
      have "length (digits n) = 1" using short[OF True] by simp
      moreover have "length (digits m) \<ge> 2" by (rule long[OF False])
      ultimately show ?thesis using eq by simp
    next
      case n: False
      have m': "digits m = digits (m div 10) @ [''0123456789'' ! (m mod 10)]"
        using False by (subst digits.simps) simp
      have n': "digits n = digits (n div 10) @ [''0123456789'' ! (n mod 10)]"
        using n by (subst digits.simps) simp
      from eq m' n' have "digits (m div 10) = digits (n div 10)"
        and c: "''0123456789'' ! (m mod 10) = ''0123456789'' ! (n mod 10)"
        by simp_all
      then have "m div 10 = n div 10" using "1.IH"[OF False] by simp
      moreover have "m mod 10 = n mod 10"
        using c by (intro digit_char_inj) simp_all
      ultimately show ?thesis by (metis div_mult_mod_eq)
    qed
  qed
qed

lemma String_js_number_inj:
  assumes "String_js (JSNumber m) = String_js (JSNumber n)"
  shows "m = n"
proof -
  have no_minus: "hd (digits k) \<noteq> CHR ''-''" for k
  proof -
    have "hd (digits k) \<in> set (digits k)" using digits_nonempty by simp
    then have "hd (digits k) \<in> set ''0123456789''" using digits_chars by blast
    then show ?thesis by auto
  qed
  have "int_of m = int_of n"
  proof (cases "int_of m < 0"; cases "int_of n < 0")
    assume "int_of m < 0" "int_of n < 0"
    then have "digits (nat (- int_of m)) = digits (nat (- int_of n))"
      using assms by (simp add: String_js_def)
    then have "nat (- int_of m) = nat (- int_of n)" by (rule digits_inj)
    with \<open>int_of m < 0\<close> \<open>int_of n < 0\<close> show ?thesis by simp
  next
    assume a: "int_of m < 0" "\<not> int_of n < 0"
    then have "CHR ''-'' # digits (nat (- int_of m)) = digits (nat (int_of n))"
      using assms by (simp add: String_js_def)
    then have "hd (digits (nat (int_of n))) = CHR ''-''" by (metis list.sel(1))
    with no_minus show ?thesis by blast
  next
    assume a: "\<not> int_of m < 0" "int_of n < 0"
    then have "digits (nat (int_of m)) = CHR ''-'' # digits (nat (- int_of n))"
      using assms by (simp add: String_js_def)
    then have "hd (digits (nat (int_of m))) = CHR ''-''" by (metis list.sel(1))
    with no_minus show ?thesis by blast
  next
    assume a: "\<not> int_of m < 0" "\<not> int_of n < 0"
    then have "digits (nat (int_of m)) = digits (nat (int_of n))"
      using assms by (simp add: String_js_def)
    then have "nat (int_of m) = nat (int_of n)" by (rule digits_inj)
    with a show ?thesis by simp
  qed
  then show ?thesis by (simp add: int_of_inject)
qed

lemma registered_new_session: "registered new_session"
  by (simp add: registered_def new_session_def)

lemma registered_useWorkbook:
  assumes "registered s"
  shows "registered (snd (useWorkbook v s))"
proof (cases "workbooks s (String_js v)")
  case None
  show ?thesis
    unfolding registered_def useWorkbook_miss[OF None]
  proof (intro allI impI)
    fix n w
    assume a: "workbooks (snd (length (objects s),
        s\<lparr>objects := objects s @ [\<lparr>resource_name = String_js v, showSidebar = True\<rparr>],
          workbooks := (workbooks s)(String_js v \<mapsto> length (objects s))\<rparr>)) n = Some w"
    show "w < length (objects (snd (length (objects s),
        s\<lparr>objects := objects s @ [\<lparr>resource_name = String_js v, showSidebar = True\<rparr>],
          workbooks := (workbooks s)(String_js v \<mapsto> length (objects s))\<rparr>))) \<and>
      resource_name (objects (snd (length (objects s),
        s\<lparr>objects := objects s @ [\<lparr>resource_name = String_js v, showSidebar = True\<rparr>],
          workbooks := (workbooks s)(String_js v \<mapsto> length (objects s))\<rparr>)) ! w) = n"
    proof (cases "n = String_js v")
      case True
      with a show ?thesis by (auto simp: nth_append)
    next
      case False
      with a have "workbooks s n = Some w" by simp
      with assms have "w < length (objects s)" "resource_name (objects s ! w) = n"
        by (auto simp: registered_def)
      then show ?thesis by (simp add: nth_append)
    qed
  qed
next
  case (Some w)
  with assms show ?thesis by (simp add: useWorkbook_hit)
qed

lemma registered_use_all: "registered s \<Longrightarrow> registered (use_all us s)"
  unfolding use_all_def
  by (induction us arbitrary: s) (simp_all add: registered_useWorkbook)

lemma useWorkbook_key: "useWorkbook v s = useWorkbook (JSString (String_js v)) s"
  by (simp add: useWorkbook_def String_js_def)

lemma useWorkbook_same_key:
  "String_js v1 = String_js v2 \<Longrightarrow> useWorkbook v1 s = useWorkbook v2 s"
  using useWorkbook_key[of v1 s] useWorkbook_key[of v2 s] by simp

text \<open>
  Claim C9.  The argument is turned into a string before the registry is consulted: a
  request with any argument is the request with its string form.  Two arguments with the
  same string form are therefore the same identifier: they get the same answer in every
  session, and the second request returns the instance of the first.  A string is its own
  string form and different numbers have different string forms.  The request finds the
  instance registered under the string form, or makes a new workbook object for it and
  registers it; in a session that started empty the reference it returns denotes the
  workbook object of that string form.
\<close>

theorem useWorkbook_coerces_to_string:
  "useWorkbook v s = useWorkbook (JSString (String_js v)) s \<and>
   String_js (JSString x) = x \<and>
   (String_js (JSNumber m) = String_js (JSNumber n) \<longrightarrow> m = n) \<and>
   (String_js v1 = String_js v2 \<longrightarrow>
      useWorkbook v1 s = useWorkbook v2 s \<and>
      useWorkbook v2 (snd (useWorkbook v1 s)) =
        (fst (useWorkbook v1 s), snd (useWorkbook v1 s))) \<and>
   (workbooks s (String_js v) = Some w \<longrightarrow> useWorkbook v s = (w, s)) \<and>
   (workbooks s (String_js v) = None \<longrightarrow>
      useWorkbook v s =
        (length (objects s),
         s\<lparr>objects := objects s @ [\<lparr>resource_name = String_js v, showSidebar = True\<rparr>],
           workbooks := (workbooks s)(String_js v \<mapsto> length (objects s))\<rparr>)) \<and>
   registered (use_all us new_session) \<and>
   (registered s \<longrightarrow>
      registered (snd (useWorkbook v s)) \<and>
      fst (useWorkbook v s) < length (objects (snd (useWorkbook v s))) \<and>
      resource_name (objects (snd (useWorkbook v s)) ! fst (useWorkbook v s)) = String_js v)"
proof (intro conjI impI)
  show "useWorkbook v s = useWorkbook (JSString (String_js v)) s" by (rule useWorkbook_key)
  show "String_js (JSString x) = x" by (simp add: String_js_def)
  show "registered (use_all us new_session)"
    by (rule registered_use_all) (rule registered_new_session)
next
  assume "String_js (JSNumber m) = String_js (JSNumber n)"
  then show "m = n" by (rule String_js_number_inj)
next
  assume eq: "String_js v1 = String_js v2"
  then show "useWorkbook v1 s = useWorkbook v2 s" by (rule useWorkbook_same_key)
  show "useWorkbook v2 (snd (useWorkbook v1 s)) = (fst (useWorkbook v1 s), snd (useWorkbook v1 s))"
  proof (rule useWorkbook_hit)
    show "workbooks (snd (useWorkbook v1 s)) (String_js v2) = Some (fst (useWorkbook v1 s))"
      using useWorkbook_cached[of v1 s] eq by simp
  qed
next
  assume "workbooks s (String_js v) = Some w"
  then show "useWorkbook v s = (w, s)" by (rule useWorkbook_hit)
next
  assume "workbooks s (String_js v) = None"
  then show "useWorkbook v s =
        (length (objects s),
         s\<lparr>objects := objects s @ [\<lparr>resource_name = String_js v, showSidebar = True\<rparr>],
           workbooks := (workbooks s)(String_js v \<mapsto> length (objects s))\<rparr>)"
    by (rule useWorkbook_miss)
next
  assume r: "registered s"
  then show r': "registered (snd (useWorkbook v s))" by (rule registered_useWorkbook)
  have c: "workbooks (snd (useWorkbook v s)) (String_js v) = Some (fst (useWorkbook v s))"
    by (rule useWorkbook_cached)
  with r' show "fst (useWorkbook v s) < length (objects (snd (useWorkbook v s)))"
    "resource_name (objects (snd (useWorkbook v s)) ! fst (useWorkbook v s)) = String_js v"
    unfolding registered_def by blast+
qed

lemma String_js_123: "String_js (JSNumber (safe 123)) = ''123''"
  by (simp add: String_js_def safe_inverse digits.simps)

lemma useWorkbook_123:
  "useWorkbook (JSNumber (safe 123)) new_session =
     (0, \<lparr>objects = [\<lparr>resource_name = ''123'', showSidebar = True\<rparr>],
          workbooks = [''123'' \<mapsto> 0]\<rparr>)"
proof -
  have "workbooks new_session (String_js (JSNumber (safe 123))) = None"
    by (simp add: new_session_def)
  from useWorkbook_miss[OF this] show ?thesis
    by (simp add: String_js_123 new_session_def)
qed

text \<open>The number 123 and the string \<open>123\<close>.\<close>

theorem useWorkbook_coerces_to_string_witness:
  "String_js (JSNumber (safe 123)) = ''123'' \<and>
   String_js (JSNumber (safe 123)) = String_js (JSString ''123'') \<and>
   useWorkbook (JSNumber (safe 123)) new_session =
     (0, \<lparr>objects = [\<lparr>resource_name = ''123'', showSidebar = True\<rparr>],
          workbooks = [''123'' \<mapsto> 0]\<rparr>) \<and>
   useWorkbook (JSString ''123'') new_session = useWorkbook (JSNumber (safe 123)) new_session \<and>
   useWorkbook (JSString ''123'') (snd (useWorkbook (JSNumber (safe 123)) new_session)) =
     (0, \<lparr>objects = [\<lparr>resource_name = ''123'', showSidebar = True\<rparr>],
          workbooks = [''123'' \<mapsto> 0]\<rparr>) \<and>
   registered new_session \<and>
   resource_name (objects (snd (useWorkbook (JSNumber (safe 123)) new_session)) !
                  fst (useWorkbook (JSNumber (safe 123)) new_session)) = ''123''"
proof -
  have eq: "String_js (JSNumber (safe 123)) = String_js (JSString ''123'')"
    by (simp add: String_js_123) (simp add: String_js_def)
  note t = useWorkbook_coerces_to_string[where ?v1.0 = "JSNumber (safe 123)"
      and ?v2.0 = "JSString ''123''" and s = new_session and v = "JSNumber (safe 123)"]
  have same: "useWorkbook (JSNumber (safe 123)) new_session = useWorkbook (JSString ''123'') new_session"
    "useWorkbook (JSString ''123'') (snd (useWorkbook (JSNumber (safe 123)) new_session)) =
       (fst (useWorkbook (JSNumber (safe 123)) new_session),
        snd (useWorkbook (JSNumber (safe 123)) new_session))"
    using t eq by blast+
  have obj: "resource_name (objects (snd (useWorkbook (JSNumber (safe 123)) new_session)) !
                  fst (useWorkbook (JSNumber (safe 123)) new_session)) =
             String_js (JSNumber (safe 123))"
    using t registered_new_session by blast
  show ?thesis
    using same obj registered_new_session
    by (simp add: String_js_123 useWorkbook_123) (simp add: String_js_def)
qed

section \<open>Properties of the removals\<close>


lemma findIndex_none: "(\<forall>x\<in>set xs. \<not> P x) \<Longrightarrow> findIndex P xs = -1"
  by (induction xs) auto

lemma findIndex_first:
  "(\<forall>x\<in>set pre. \<not> P x) \<Longrightarrow> P r \<Longrightarrow> findIndex P (pre @ r # post) = int (length pre)"
  by (induction pre) (auto simp: Let_def)

lemma nth_before: "pre \<noteq> [] \<Longrightarrow> (pre @ r # post) ! (length pre - Suc 0) = last pre"
  by (cases pre rule: rev_cases) (auto simp: nth_append)

lemma removeQuery_remove_missing:
  "name \<notin> row_name ` set (queries (doc w)) \<Longrightarrow> removeQuery_remove name deleted w = w"
proof -
  assume "name \<notin> row_name ` set (queries (doc w))"
  then have "findIndex (\<lambda>row. row_name row = name) (queries (doc w)) = -1"
    by (intro findIndex_none) auto
  then show ?thesis by (simp add: removeQuery_remove_def)
qed

lemma removeChart_remove_missing:
  "name \<notin> row_name ` set (charts (doc w)) \<Longrightarrow> removeChart_remove name deleted w = w"
proof -
  assume "name \<notin> row_name ` set (charts (doc w))"
  then have "findIndex (\<lambda>row. row_name row = name) (charts (doc w)) = -1"
    by (intro findIndex_none) auto
  then show ?thesis by (simp add: removeChart_remove_def)
qed

lemma removeDashboard_remove_missing:
  "name \<notin> row_name ` set (dashboards (doc w)) \<Longrightarrow> removeDashboard_remove name deleted w = w"
proof -
  assume "name \<notin> row_name ` set (dashboards (doc w))"
  then have "findIndex (\<lambda>row. row_name row = name) (dashboards (doc w)) = -1"
    by (intro findIndex_none) auto
  then show ?thesis by (simp add: removeDashboard_remove_def)
qed

lemma removeQuery_remove_trace:
  "\<exists>rest. trace (removeQuery_remove name deleted w) = trace w @ rest"
  by (cases deleted)
     (simp_all add: removeQuery_remove_def Let_def emit_def setActiveTab_def router_replace_def)

lemma removeChart_remove_trace:
  "\<exists>rest. trace (removeChart_remove name deleted w) = trace w @ rest"
  by (cases deleted)
     (simp_all add: removeChart_remove_def Let_def emit_def setActiveTab_def router_replace_def)

lemma removeDashboard_remove_trace:
  "\<exists>rest. trace (removeDashboard_remove name deleted w) = trace w @ rest"
  by (cases deleted)
     (simp_all add: removeDashboard_remove_def Let_def emit_def setActiveTab_def
        router_replace_def)

lemma confirmDialog_first:
  assumes "\<And>w. \<exists>rest. trace (onSuccess w) = trace w @ rest"
  shows "\<exists>rest. trace (confirmDialog confirmed title message onSuccess w) =
                  trace w @ ConfirmDialog title message # rest \<and>
                (\<not> confirmed \<longrightarrow>
                   rest = [] \<and> doc (confirmDialog confirmed title message onSuccess w) = doc w)"
proof (cases confirmed)
  case True
  obtain rest where "trace (onSuccess (emit (ConfirmDialog title message) w)) =
      trace (emit (ConfirmDialog title message) w) @ rest"
    using assms by blast
  with True show ?thesis by (simp add: confirmDialog_def emit_def)
next
  case False
  then show ?thesis by (simp add: confirmDialog_def emit_def)
qed

text \<open>
  Claim C7.  Each of \<^verbatim>\<open>removeQuery\<close>, \<^verbatim>\<open>removeChart\<close>, \<^verbatim>\<open>removeDashboard\<close> and
  \<^verbatim>\<open>deleteWorkbook\<close> first opens the confirmation dialog; everything else it does, the
  remote delete included, comes after the dialog in the trace, and when the user does not
  confirm there is nothing else: no remote delete and no change of the document.
\<close>

theorem delete_only_after_confirmation:
  "(\<exists>rest. trace (removeQuery name confirmed deleted w) =
            trace w @ ConfirmDialog ''Delete Query''
                        ''Are you sure you want to delete this query?'' # rest \<and>
          (\<not> confirmed \<longrightarrow> rest = [] \<and> doc (removeQuery name confirmed deleted w) = doc w)) \<and>
   (\<exists>rest. trace (removeChart name confirmed deleted w) =
            trace w @ ConfirmDialog ''Delete Chart''
                        ''Are you sure you want to delete this chart?'' # rest \<and>
          (\<not> confirmed \<longrightarrow> rest = [] \<and> doc (removeChart name confirmed deleted w) = doc w)) \<and>
   (\<exists>rest. trace (removeDashboard name confirmed deleted w) =
            trace w @ ConfirmDialog ''Delete Dashboard''
                        ''Are you sure you want to delete this dashboard?'' # rest \<and>
          (\<not> confirmed \<longrightarrow>
             rest = [] \<and> doc (removeDashboard name confirmed deleted w) = doc w)) \<and>
   (\<exists>rest. trace (deleteWorkbook confirmed deleted w) =
            trace w @ ConfirmDialog ''Delete Workbook''
                        ''Are you sure you want to delete this workbook?'' # rest \<and>
          (\<not> confirmed \<longrightarrow> rest = [] \<and> doc (deleteWorkbook confirmed deleted w) = doc w))"
proof (intro conjI)
  show "\<exists>rest. trace (removeQuery name confirmed deleted w) =
            trace w @ ConfirmDialog ''Delete Query''
                        ''Are you sure you want to delete this query?'' # rest \<and>
          (\<not> confirmed \<longrightarrow> rest = [] \<and> doc (removeQuery name confirmed deleted w) = doc w)"
    unfolding removeQuery_def by (rule confirmDialog_first) (rule removeQuery_remove_trace)
  show "\<exists>rest. trace (removeChart name confirmed deleted w) =
            trace w @ ConfirmDialog ''Delete Chart''
                        ''Are you sure you want to delete this chart?'' # rest \<and>
          (\<not> confirmed \<longrightarrow> rest = [] \<and> doc (removeChart name confirmed deleted w) = doc w)"
    unfolding removeChart_def by (rule confirmDialog_first) (rule removeChart_remove_trace)
  show "\<exists>rest. trace (removeDashboard name confirmed deleted w) =
            trace w @ ConfirmDialog ''Delete Dashboard''
                        ''Are you sure you want to delete this dashboard?'' # rest \<and>
          (\<not> confirmed \<longrightarrow>
             rest = [] \<and> doc (removeDashboard name confirmed deleted w) = doc w)"
    unfolding removeDashboard_def
    by (rule confirmDialog_first) (rule removeDashboard_remove_trace)
  show "\<exists>rest. trace (deleteWorkbook confirmed deleted w) =
            trace w @ ConfirmDialog ''Delete Workbook''
                        ''Are you sure you want to delete this workbook?'' # rest \<and>
          (\<not> confirmed \<longrightarrow> rest = [] \<and> doc (deleteWorkbook confirmed deleted w) = doc w)"
    unfolding deleteWorkbook_def
    by (rule confirmDialog_first)
       (simp add: Let_def emit_def router_replace_def split: outcome.split)
qed

lemma removeQuery_two_queries_q1:
  "removeQuery ''q1'' True (Resolved ()) two_queries =
     two_queries\<lparr>doc := (doc two_queries)\<lparr>queries := [\<lparr>row_name = ''q2'', row_title = ''Query 2''\<rparr>]\<rparr>,
       trace := [ConfirmDialog ''Delete Query'' ''Are you sure you want to delete this query?'',
                 RemoteDelete ''query'' ''q1'',
                 RouterReplace ''/workbook/wb1'']\<rparr>"
  by (simp add: removeQuery_def confirmDialog_def removeQuery_remove_def two_queries_def
      emit_def router_replace_def setActiveTab_def splice1_def Let_def)

lemma removeQuery_two_queries_q2:
  "removeQuery ''q2'' True (Resolved ()) two_queries =
     two_queries\<lparr>doc := (doc two_queries)\<lparr>queries := [\<lparr>row_name = ''q1'', row_title = ''Query 1''\<rparr>]\<rparr>,
       trace := [ConfirmDialog ''Delete Query'' ''Are you sure you want to delete this query?'',
                 RemoteDelete ''query'' ''q2'',
                 RouterReplace ''/workbook/wb1/query/q1'']\<rparr>"
  by (simp add: removeQuery_def confirmDialog_def removeQuery_remove_def two_queries_def
      emit_def router_replace_def setActiveTab_def splice1_def Let_def)

text \<open>Dismissing the dialog leaves only the dialog in the trace; confirming puts the
  delete after it.\<close>

theorem delete_only_after_confirmation_witness:
  "trace (removeQuery ''q1'' False (Resolved ()) two_queries) =
     [ConfirmDialog ''Delete Query'' ''Are you sure you want to delete this query?''] \<and>
   doc (removeQuery ''q1'' False (Resolved ()) two_queries) = doc two_queries \<and>
   trace (deleteWorkbook False (Resolved ()) two_queries) =
     [ConfirmDialog ''Delete Workbook'' ''Are you sure you want to delete this workbook?''] \<and>
   trace (removeQuery ''q1'' True (Resolved ()) two_queries) =
     [ConfirmDialog ''Delete Query'' ''Are you sure you want to delete this query?'',
      RemoteDelete ''query'' ''q1'', RouterReplace ''/workbook/wb1'']"
proof -
  have t: "trace two_queries = []" by (simp add: two_queries_def)
  show ?thesis
    using delete_only_after_confirmation[of "''q1''" False "Resolved ()" two_queries]
      removeQuery_two_queries_q1
    by (auto simp: t)
qed

text \<open>
  Claim C10.  When the confirmed name is not in the list of the workbook
  (\<^verbatim>\<open>findIndex\<close> gives \<open>-1\<close>), the removal does nothing beyond the dialog it has shown: no
  remote delete, no change of a list, no navigation.
\<close>

theorem remove_missing_name_is_noop:
  "(name \<notin> row_name ` set (queries (doc w)) \<longrightarrow>
      removeQuery name True deleted w =
        emit (ConfirmDialog ''Delete Query'' ''Are you sure you want to delete this query?'') w) \<and>
   (name \<notin> row_name ` set (charts (doc w)) \<longrightarrow>
      removeChart name True deleted w =
        emit (ConfirmDialog ''Delete Chart'' ''Are you sure you want to delete this chart?'') w) \<and>
   (name \<notin> row_name ` set (dashboards (doc w)) \<longrightarrow>
      removeDashboard name True deleted w =
        emit (ConfirmDialog ''Delete Dashboard''
                ''Are you sure you want to delete this dashboard?'') w)"
proof -
  have d: "\<And>c. doc (emit c w) = doc w" by (simp add: emit_def)
  show ?thesis
    by (simp add: removeQuery_def removeChart_def removeDashboard_def confirmDialog_def
        removeQuery_remove_missing removeChart_remove_missing removeDashboard_remove_missing d)
qed

text \<open>The name \<open>q9\<close> is in none of the three lists of the example workbook.\<close>

theorem remove_missing_name_is_noop_witness:
  "''q9'' \<notin> row_name ` set (queries (doc two_queries)) \<and>
   ''q9'' \<notin> row_name ` set (charts (doc two_queries)) \<and>
   ''q9'' \<notin> row_name ` set (dashboards (doc two_queries)) \<and>
   removeQuery ''q9'' True (Resolved ()) two_queries =
     two_queries\<lparr>trace :=
       [ConfirmDialog ''Delete Query'' ''Are you sure you want to delete this query?'']\<rparr> \<and>
   removeChart ''q9'' True (Resolved ()) two_queries =
     two_queries\<lparr>trace :=
       [ConfirmDialog ''Delete Chart'' ''Are you sure you want to delete this chart?'']\<rparr> \<and>
   removeDashboard ''q9'' True (Resolved ()) two_queries =
     two_queries\<lparr>trace :=
       [ConfirmDialog ''Delete Dashboard''
          ''Are you sure you want to delete this dashboard?'']\<rparr>"
proof -
  have m: "''q9'' \<notin> row_name ` set (queries (doc two_queries))"
    "''q9'' \<notin> row_name ` set (charts (doc two_queries))"
    "''q9'' \<notin> row_name ` set (dashboards (doc two_queries))"
    by (simp_all add: two_queries_def)
  have e: "\<And>c. emit c two_queries = two_queries\<lparr>trace := [c]\<rparr>"
    by (simp add: emit_def two_queries_def)
  show ?thesis
    using remove_missing_name_is_noop[of "''q9''" two_queries "Resolved ()"] m
    by (simp add: e)
qed

lemma remove_navigation:
  assumes idx: "findIndex (\<lambda>row. row_name row = name) rows = int (length pre)"
    and rows: "rows = pre @ r # post"
  shows "(if int (length pre) - 1 \<ge> 0
          then ''/workbook/'' @ wb @ ''/'' @ type @ ''/'' @ row_name (rows ! nat (int (length pre) - 1))
          else ''/workbook/'' @ wb) =
         (if pre = [] then ''/workbook/'' @ wb
          else ''/workbook/'' @ wb @ ''/'' @ type @ ''/'' @ row_name (last pre))"
proof (cases "pre = []")
  case True
  then show ?thesis by simp
next
  case False
  then have "length pre > 0" by simp
  then have "nat (int (length pre) - 1) = length pre - Suc 0" by simp
  with False rows show ?thesis by (simp add: nth_before)
qed

text \<open>
  Claim C4, as the code has it.  Confirming the removal of an item of the list navigates
  once: to the tab of the item just before it when there is one, and to the root of the
  workbook exactly when the removed item is the first of the list, whether or not other
  items follow it.  (The item removed is the first one of that name.)
\<close>

theorem remove_redirects_to_previous_or_root:
  "(queries (doc w) = pre @ r # post \<and> row_name r = name \<and> name \<notin> row_name ` set pre \<longrightarrow>
      navigations (trace (removeQuery name True deleted w)) =
        navigations (trace w) @
          [if pre = [] then ''/workbook/'' @ workbook_name w
           else ''/workbook/'' @ workbook_name w @ ''/query/'' @ row_name (last pre)]) \<and>
   (charts (doc w) = cpre @ c # cpost \<and> row_name c = name \<and> name \<notin> row_name ` set cpre \<longrightarrow>
      navigations (trace (removeChart name True deleted w)) =
        navigations (trace w) @
          [if cpre = [] then ''/workbook/'' @ workbook_name w
           else ''/workbook/'' @ workbook_name w @ ''/chart/'' @ row_name (last cpre)]) \<and>
   (dashboards (doc w) = dpre @ d # dpost \<and> row_name d = name \<and>
    name \<notin> row_name ` set dpre \<longrightarrow>
      navigations (trace (removeDashboard name True deleted w)) =
        navigations (trace w) @
          [if dpre = [] then ''/workbook/'' @ workbook_name w
           else ''/workbook/'' @ workbook_name w @ ''/dashboard/'' @ row_name (last dpre)])"
proof (intro conjI impI)
  assume a: "queries (doc w) = pre @ r # post \<and> row_name r = name \<and> name \<notin> row_name ` set pre"
  then have "\<forall>x\<in>set pre. row_name x \<noteq> name" by (metis imageI)
  with a have idx: "findIndex (\<lambda>row. row_name row = name) (queries (doc w)) = int (length pre)"
    by (simp add: findIndex_first)
  have nav: "(if int (length pre) - 1 \<ge> 0
          then ''/workbook/'' @ workbook_name w @ ''/'' @ ''query'' @ ''/'' @
               row_name (queries (doc w) ! nat (int (length pre) - 1))
          else ''/workbook/'' @ workbook_name w) =
         (if pre = [] then ''/workbook/'' @ workbook_name w
          else ''/workbook/'' @ workbook_name w @ ''/'' @ ''query'' @ ''/'' @ row_name (last pre))"
    using a by (intro remove_navigation[OF idx]) simp
  show "navigations (trace (removeQuery name True deleted w)) =
        navigations (trace w) @
          [if pre = [] then ''/workbook/'' @ workbook_name w
           else ''/workbook/'' @ workbook_name w @ ''/query/'' @ row_name (last pre)]"
    using nav
    by (cases deleted)
       (auto simp: removeQuery_def confirmDialog_def removeQuery_remove_def idx Let_def emit_def
          setActiveTab_def router_replace_def navigations_def split: if_splits)
next
  assume a: "charts (doc w) = cpre @ c # cpost \<and> row_name c = name \<and> name \<notin> row_name ` set cpre"
  then have "\<forall>x\<in>set cpre. row_name x \<noteq> name" by (metis imageI)
  with a have idx: "findIndex (\<lambda>row. row_name row = name) (charts (doc w)) = int (length cpre)"
    by (simp add: findIndex_first)
  have nav: "(if int (length cpre) - 1 \<ge> 0
          then ''/workbook/'' @ workbook_name w @ ''/'' @ ''chart'' @ ''/'' @
               row_name (charts (doc w) ! nat (int (length cpre) - 1))
          else ''/workbook/'' @ workbook_name w) =
         (if cpre = [] then ''/workbook/'' @ workbook_name w
          else ''/workbook/'' @ workbook_name w @ ''/'' @ ''chart'' @ ''/'' @ row_name (last cpre))"
    using a by (intro remove_navigation[OF idx]) simp
  show "navigations (trace (removeChart name True deleted w)) =
        navigations (trace w) @
          [if cpre = [] then ''/workbook/'' @ workbook_name w
           else ''/workbook/'' @ workbook_name w @ ''/chart/'' @ row_name (last cpre)]"
    using nav
    by (cases deleted)
       (auto simp: removeChart_def confirmDialog_def removeChart_remove_def idx Let_def emit_def
          setActiveTab_def router_replace_def navigations_def split: if_splits)
next
  assume a: "dashboards (doc w) = dpre @ d # dpost \<and> row_name d = name \<and>
    name \<notin> row_name ` set dpre"
  then have "\<forall>x\<in>set dpre. row_name x \<noteq> name" by (metis imageI)
  with a have idx: "findIndex (\<lambda>row. row_name row = name) (dashboards (doc w)) = int (length dpre)"
    by (simp add: findIndex_first)
  have nav: "(if int (length dpre) - 1 \<ge> 0
          then ''/workbook/'' @ workbook_name w @ ''/'' @ ''dashboard'' @ ''/'' @
               row_name (dashboards (doc w) ! nat (int (length dpre) - 1))
          else ''/workbook/'' @ workbook_name w) =
         (if dpre = [] then ''/workbook/'' @ workbook_name w
          else ''/workbook/'' @ workbook_name w @ ''/'' @ ''dashboard'' @ ''/'' @
               row_name (last dpre))"
    using a by (intro remove_navigation[OF idx]) simp
  show "navigations (trace (removeDashboard name True deleted w)) =
        navigations (trace w) @
          [if dpre = [] then ''/workbook/'' @ workbook_name w
           else ''/workbook/'' @ workbook_name w @ ''/dashboard/'' @ row_name (last dpre)]"
    using nav
    by (cases deleted)
       (auto simp: removeDashboard_def confirmDialog_def removeDashboard_remove_def idx Let_def
          emit_def setActiveTab_def router_replace_def navigations_def split: if_splits)
qed

text \<open>Claim C4 as stated fails on a list of two queries: removing the first one goes to
  the root of the workbook although a sibling exists, and removing the last one goes to
  the tab of its sibling.\<close>

theorem remove_first_of_two_counterexample:
  "length (queries (doc two_queries)) = 2 \<and>
   navigations (trace (removeQuery ''q1'' True (Resolved ()) two_queries)) = [''/workbook/wb1''] \<and>
   navigations (trace (removeQuery ''q2'' True (Resolved ()) two_queries)) =
     [''/workbook/wb1/query/q1'']"
proof -
  have "length (queries (doc two_queries)) = 2" by (simp add: two_queries_def)
  then show ?thesis
    by (simp add: removeQuery_two_queries_q1 removeQuery_two_queries_q2 navigations_def)
qed

text \<open>On the example workbook, for the three kinds of item.\<close>

theorem remove_redirects_to_previous_or_root_witness:
  "navigations (trace (removeQuery ''q2'' True (Resolved ()) two_queries)) =
     [''/workbook/wb1/query/q1''] \<and>
   navigations (trace (removeQuery ''q1'' True (Resolved ()) two_queries)) = [''/workbook/wb1''] \<and>
   navigations (trace (removeChart ''c1'' True (Resolved ()) two_queries)) = [''/workbook/wb1''] \<and>
   navigations (trace (removeDashboard ''d1'' True (Resolved ()) two_queries)) = [''/workbook/wb1'']"
proof -
  have q: "queries (doc two_queries) =
      [\<lparr>row_name = ''q1'', row_title = ''Query 1''\<rparr>] @ \<lparr>row_name = ''q2'', row_title = ''Query 2''\<rparr> # []"
    "queries (doc two_queries) =
      [] @ \<lparr>row_name = ''q1'', row_title = ''Query 1''\<rparr> # [\<lparr>row_name = ''q2'', row_title = ''Query 2''\<rparr>]"
    "charts (doc two_queries) =
      [] @ \<lparr>row_name = ''c1'', row_title = ''Chart 1'', chart_query = ''q1'', chart_type = ''Bar''\<rparr> # []"
    "dashboards (doc two_queries) = [] @ \<lparr>row_name = ''d1'', row_title = ''Dashboard 1''\<rparr> # []"
    by (simp_all add: two_queries_def)
  have t: "trace two_queries = []" "workbook_name two_queries = ''wb1''"
    by (simp_all add: two_queries_def)
  have 1: "navigations (trace (removeQuery ''q2'' True (Resolved ()) two_queries)) =
     [''/workbook/wb1/query/q1'']"
    using remove_redirects_to_previous_or_root[where w = two_queries and name = "''q2''"
        and pre = "[\<lparr>row_name = ''q1'', row_title = ''Query 1''\<rparr>]"
        and r = "\<lparr>row_name = ''q2'', row_title = ''Query 2''\<rparr>" and post = "[]"
        and deleted = "Resolved ()"] q(1)
    by (simp add: t navigations_def)
  have 2: "navigations (trace (removeQuery ''q1'' True (Resolved ()) two_queries)) =
     [''/workbook/wb1'']"
    using remove_redirects_to_previous_or_root[where w = two_queries and name = "''q1''"
        and pre = "[]" and r = "\<lparr>row_name = ''q1'', row_title = ''Query 1''\<rparr>"
        and post = "[\<lparr>row_name = ''q2'', row_title = ''Query 2''\<rparr>]"
        and deleted = "Resolved ()"] q(2)
    by (simp add: t navigations_def)
  have 3: "navigations (trace (removeChart ''c1'' True (Resolved ()) two_queries)) =
     [''/workbook/wb1'']"
    using remove_redirects_to_previous_or_root[where w = two_queries and name = "''c1''"
        and cpre = "[]"
        and c = "\<lparr>row_name = ''c1'', row_title = ''Chart 1'', chart_query = ''q1'', chart_type = ''Bar''\<rparr>"
        and cpost = "[]" and deleted = "Resolved ()"] q(3)
    by (simp add: t navigations_def)
  have 4: "navigations (trace (removeDashboard ''d1'' True (Resolved ()) two_queries)) =
     [''/workbook/wb1'']"
    using remove_redirects_to_previous_or_root[where w = two_queries and name = "''d1''"
        and dpre = "[]" and d = "\<lparr>row_name = ''d1'', row_title = ''Dashboard 1''\<rparr>"
        and dpost = "[]" and deleted = "Resolved ()"] q(4)
    by (simp add: t navigations_def)
  show ?thesis using 1 2 3 4 by simp
qed


section \<open>Properties of the sharing permissions\<close>

text \<open>
  Claim C3, as the code has it.  Sending a role to the backend and reading the stored
  flags back gives the role again when the role is \<^verbatim>\<open>'view'\<close> or absent, and the user is
  kept; reading flags and sending them again gives the same flags when \<^verbatim>\<open>write\<close> is not
  set.  \<^verbatim>\<open>getSharePermissions\<close> reports \<^verbatim>\<open>'edit'\<close> exactly for read and write together
  and \<^verbatim>\<open>'view'\<close> exactly for read without write.
\<close>

theorem share_permission_roundtrip:
  "(access p \<noteq> Some Edit \<longrightarrow> access (from_backend (stored n (to_backend p))) = access p) \<and>
   email (from_backend (stored n (to_backend p))) = email p \<and>
   (\<not> perm_write b \<longrightarrow>
      sent_read (to_backend (from_backend b)) = perm_read b \<and>
      sent_write (to_backend (from_backend b)) = perm_write b) \<and>
   sent_user (to_backend (from_backend b)) = user b \<and>
   (access (from_backend b) = Some Edit \<longleftrightarrow> perm_read b \<and> perm_write b) \<and>
   (access (from_backend b) = Some View \<longleftrightarrow> perm_read b \<and> \<not> perm_write b)"
  by (cases "access p" rule: option.exhaust; cases "the (access p)")
     (auto simp: from_backend_def to_backend_def stored_def)

text \<open>The round trips of a viewer.\<close>

theorem share_permission_roundtrip_witness:
  "access viewer \<noteq> Some Edit \<and>
   access (from_backend (stored ''Bob'' (to_backend viewer))) = Some View \<and>
   \<not> perm_write (stored ''Bob'' (to_backend viewer)) \<and>
   sent_read (to_backend (from_backend (stored ''Bob'' (to_backend viewer)))) = True \<and>
   sent_write (to_backend (from_backend (stored ''Bob'' (to_backend viewer)))) = False"
proof -
  have v: "access viewer = Some View" by (simp add: viewer_def)
  have w: "\<not> perm_write (stored ''Bob'' (to_backend viewer))"
    "perm_read (stored ''Bob'' (to_backend viewer))"
    by (simp_all add: stored_def to_backend_def viewer_def)
  show ?thesis
    using share_permission_roundtrip[of viewer "''Bob''" "stored ''Bob'' (to_backend viewer)"] v w
    by simp
qed

text \<open>Claim C3 as stated fails for \<^verbatim>\<open>'edit'\<close>: the flags sent are write without read,
  and these are read back as no role.\<close>

theorem share_permission_edit_counterexample:
  "access editor = Some Edit \<and>
   sent_read (to_backend editor) = False \<and> sent_write (to_backend editor) = True \<and>
   access (from_backend (stored ''Ann'' (to_backend editor))) = None"
  by (simp add: editor_def to_backend_def stored_def from_backend_def)


section \<open>Remote failures\<close>






section \<open>Properties of the auto-save controller\<close>

lemma run_snoc: "run (evs @ [ev]) s = step ev (run evs s)"
  by (simp add: run_def)

lemma controller_ok_initial: "controller_ok initial"
  by (simp add: controller_ok_def initial_def)

lemma controller_ok_step:
  assumes "controller_ok s"
  shows "controller_ok (step ev s)"
proof (cases ev)
  case (SetEnableAutoSave b)
  with assms show ?thesis
    by (auto simp: controller_ok_def step_def on_enable_auto_save_change_def Let_def
        watchDebounced_def call_stop_handle_def watch_source_def)
next
  case (SetDirty b)
  with assms show ?thesis
    by (auto simp: controller_ok_def step_def source_may_have_changed_def watch_source_def)
next
  case (SetPause b)
  with assms show ?thesis
    by (auto simp: controller_ok_def step_def source_may_have_changed_def watch_source_def)
next
  case DebounceElapsed
  with assms show ?thesis
    by (auto simp: controller_ok_def step_def watcher_callback_def watch_source_def
        split: option.splits)
next
  case StaleDebounceElapsed
  with assms show ?thesis
    by (auto simp: controller_ok_def step_def watcher_callback_def watch_source_def
        split: list.splits)
qed

lemma controller_ok_run: "controller_ok (run evs initial)"
proof (induction evs rule: rev_induct)
  case Nil
  show ?case by (simp add: run_def controller_ok_initial)
next
  case (snoc ev evs)
  then show ?case unfolding run_snoc by (rule controller_ok_step)
qed

text \<open>
  Claim C5, as the code has it.  After any sequence of events the controller is Watching
  exactly when auto-save is enabled, and the watcher it then holds was registered with a
  debounce of 2000 ms.  Enabling leads to Watching and disabling to Idle; no other event
  changes the state.  While Watching, a change of the value of the source sets the timer
  anew, and when the interval of that timer has passed the workbook is saved if and only
  if it is dirty and the pause flag is not set.  While Idle no timer of a watcher is set
  and a change of a flag sets none; enabling again registers a watcher and sets its timer.
  Disabling does not cancel the timer that is set at that moment: it stays behind and,
  when its interval has passed, saves if the workbook was dirty and not paused when the
  timer was set.  Nothing else saves, and only disabling leaves a timer behind.
\<close>

theorem autosave_two_states:
  "let s = run evs initial in
     (mode_of s = Watching \<longleftrightarrow> enable_auto_save s) \<and>
     (mode_of s = Watching \<longrightarrow>
        stopAutoSaveWatcher s = Some \<lparr>immediate = True, debounce = 2000\<rparr>) \<and>
     mode_of (step (SetEnableAutoSave True) s) = Watching \<and>
     mode_of (step (SetEnableAutoSave False) s) = Idle \<and>
     (\<forall>ev. (\<forall>b. ev \<noteq> SetEnableAutoSave b) \<longrightarrow> mode_of (step ev s) = mode_of s) \<and>
     (mode_of s = Idle \<longrightarrow>
        scheduled s = None \<and>
        scheduled (step (SetEnableAutoSave True) s) = Some (isdirty s \<and> \<not> pauseAutoSave s) \<and>
        (\<forall>b. step (SetDirty b) s = s\<lparr>isdirty := b\<rparr> \<and>
             step (SetPause b) s = s\<lparr>pauseAutoSave := b\<rparr>)) \<and>
     (mode_of s = Watching \<longrightarrow>
        (\<forall>b. scheduled (step (SetDirty b) s) =
               (if (b \<and> \<not> pauseAutoSave s) = (isdirty s \<and> \<not> pauseAutoSave s)
                then scheduled s else Some (b \<and> \<not> pauseAutoSave s)) \<and>
             scheduled (step (SetPause b) s) =
               (if (isdirty s \<and> \<not> b) = (isdirty s \<and> \<not> pauseAutoSave s)
                then scheduled s else Some (isdirty s \<and> \<not> b))) \<and>
        stale (step (SetEnableAutoSave False) s) =
          stale s @ (case scheduled s of None \<Rightarrow> [] | Some v \<Rightarrow> [v])) \<and>
     saves (step DebounceElapsed s) =
       (if mode_of s = Watching \<and> scheduled s \<noteq> None \<and> isdirty s \<and> \<not> pauseAutoSave s
        then saves s + 1 else saves s) \<and>
     saves (step StaleDebounceElapsed s) =
       (case stale s of [] \<Rightarrow> saves s
        | shouldSave # rest \<Rightarrow> if shouldSave then saves s + 1 else saves s) \<and>
     (\<forall>ev. ev \<noteq> DebounceElapsed \<and> ev \<noteq> StaleDebounceElapsed \<longrightarrow>
           saves (step ev s) = saves s) \<and>
     (\<forall>ev. ev \<noteq> SetEnableAutoSave False \<longrightarrow> length (stale (step ev s)) \<le> length (stale s))"
proof -
  let ?s = "run evs initial"
  have ok: "controller_ok ?s" by (rule controller_ok_run)
  have 1: "mode_of ?s = Watching \<longleftrightarrow> enable_auto_save ?s"
    using ok by (auto simp: mode_of_def controller_ok_def)
  have 2: "mode_of ?s = Watching \<longrightarrow>
        stopAutoSaveWatcher ?s = Some \<lparr>immediate = True, debounce = 2000\<rparr>"
    using ok by (auto simp: mode_of_def controller_ok_def)
  have 3: "mode_of (step (SetEnableAutoSave True) ?s) = Watching"
    using ok
    by (auto simp: mode_of_def controller_ok_def step_def on_enable_auto_save_change_def
        Let_def watchDebounced_def call_stop_handle_def)
  have 4: "mode_of (step (SetEnableAutoSave False) ?s) = Idle"
    using ok
    by (auto simp: mode_of_def controller_ok_def step_def on_enable_auto_save_change_def
        Let_def watchDebounced_def call_stop_handle_def)
  have 5: "mode_of (step ev ?s) = mode_of ?s" if "\<forall>b. ev \<noteq> SetEnableAutoSave b" for ev
    using that
    by (cases ev)
       (auto simp: mode_of_def step_def source_may_have_changed_def watcher_callback_def
          split: option.splits list.splits)
  have 6: "mode_of ?s = Idle \<longrightarrow>
        scheduled ?s = None \<and>
        scheduled (step (SetEnableAutoSave True) ?s) = Some (isdirty ?s \<and> \<not> pauseAutoSave ?s) \<and>
        (\<forall>b. step (SetDirty b) ?s = ?s\<lparr>isdirty := b\<rparr> \<and>
             step (SetPause b) ?s = ?s\<lparr>pauseAutoSave := b\<rparr>)"
    using ok
    by (auto simp: mode_of_def controller_ok_def step_def on_enable_auto_save_change_def
        Let_def watchDebounced_def source_may_have_changed_def watch_source_def
        split: if_splits)
  have 7: "mode_of ?s = Watching \<longrightarrow>
        (\<forall>b. scheduled (step (SetDirty b) ?s) =
               (if (b \<and> \<not> pauseAutoSave ?s) = (isdirty ?s \<and> \<not> pauseAutoSave ?s)
                then scheduled ?s else Some (b \<and> \<not> pauseAutoSave ?s)) \<and>
             scheduled (step (SetPause b) ?s) =
               (if (isdirty ?s \<and> \<not> b) = (isdirty ?s \<and> \<not> pauseAutoSave ?s)
                then scheduled ?s else Some (isdirty ?s \<and> \<not> b))) \<and>
        stale (step (SetEnableAutoSave False) ?s) =
          stale ?s @ (case scheduled ?s of None \<Rightarrow> [] | Some v \<Rightarrow> [v])"
    using ok 1
    by (auto simp: mode_of_def controller_ok_def step_def on_enable_auto_save_change_def
        Let_def call_stop_handle_def source_may_have_changed_def watch_source_def
        split: if_splits)
  have 8: "saves (step DebounceElapsed ?s) =
       (if mode_of ?s = Watching \<and> scheduled ?s \<noteq> None \<and> isdirty ?s \<and> \<not> pauseAutoSave ?s
        then saves ?s + 1 else saves ?s)"
    using ok
    by (auto simp: mode_of_def controller_ok_def step_def watcher_callback_def watch_source_def
        split: option.splits)
  have 9: "saves (step StaleDebounceElapsed ?s) =
       (case stale ?s of [] \<Rightarrow> saves ?s
        | shouldSave # rest \<Rightarrow> if shouldSave then saves ?s + 1 else saves ?s)"
    by (auto simp: step_def watcher_callback_def split: list.splits)
  have 10: "saves (step ev ?s) = saves ?s"
    if "ev \<noteq> DebounceElapsed \<and> ev \<noteq> StaleDebounceElapsed" for ev
    using that
    by (cases ev)
       (auto simp: step_def on_enable_auto_save_change_def Let_def watchDebounced_def
          call_stop_handle_def source_may_have_changed_def)
  have 11: "length (stale (step ev ?s)) \<le> length (stale ?s)"
    if "ev \<noteq> SetEnableAutoSave False" for ev
    using that
    by (cases ev)
       (auto simp: step_def on_enable_auto_save_change_def Let_def watchDebounced_def
          call_stop_handle_def source_may_have_changed_def watcher_callback_def
          split: option.splits list.splits)
  show ?thesis
    unfolding Let_def
    apply (intro conjI)
    subgoal by (rule 1)
    subgoal by (rule 2)
    subgoal by (rule 3)
    subgoal by (rule 4)
    subgoal using 5 by blast
    subgoal by (rule 6)
    subgoal by (rule 7)
    subgoal by (rule 8)
    subgoal by (rule 9)
    subgoal using 10 by blast
    subgoal using 11 by blast
    done
qed

lemma run_enabled_dirty:
  "run [SetEnableAutoSave True, SetDirty True] initial =
     \<lparr>enable_auto_save = True,
      stopAutoSaveWatcher = Some \<lparr>immediate = True, debounce = 2000\<rparr>,
      isdirty = True, pauseAutoSave = False, scheduled = Some True, stale = [], saves = 0\<rparr>"
  by (simp add: run_def step_def initial_def on_enable_auto_save_change_def Let_def
      watchDebounced_def source_may_have_changed_def watch_source_def)

lemma run_disabled_early:
  "run [SetEnableAutoSave True, SetDirty True, SetEnableAutoSave False] initial =
     \<lparr>enable_auto_save = False, stopAutoSaveWatcher = None,
      isdirty = True, pauseAutoSave = False, scheduled = None, stale = [True], saves = 0\<rparr>"
proof -
  have "run ([SetEnableAutoSave True, SetDirty True] @ [SetEnableAutoSave False]) initial =
     \<lparr>enable_auto_save = False, stopAutoSaveWatcher = None,
      isdirty = True, pauseAutoSave = False, scheduled = None, stale = [True], saves = 0\<rparr>"
    unfolding run_snoc run_enabled_dirty
    by (simp add: step_def on_enable_auto_save_change_def Let_def call_stop_handle_def)
  then show ?thesis by simp
qed

text \<open>A run: enabled and dirty, the timer is set and its passing saves; pausing saves
  nothing; disabling leaves the timer behind; while Idle a change of the dirty flag sets no
  timer; enabling again sets one.\<close>

theorem autosave_two_states_witness:
  "mode_of (run [SetEnableAutoSave True, SetDirty True] initial) = Watching \<and>
   scheduled (run [SetEnableAutoSave True, SetDirty True] initial) = Some True \<and>
   saves (step DebounceElapsed (run [SetEnableAutoSave True, SetDirty True] initial)) = 1 \<and>
   saves (step (SetPause True) (run [SetEnableAutoSave True, SetDirty True] initial)) = 0 \<and>
   stale (step (SetEnableAutoSave False)
            (run [SetEnableAutoSave True, SetDirty True] initial)) = [True] \<and>
   mode_of (run [SetEnableAutoSave True, SetDirty True, SetEnableAutoSave False] initial) = Idle \<and>
   step (SetDirty False)
     (run [SetEnableAutoSave True, SetDirty True, SetEnableAutoSave False] initial) =
     (run [SetEnableAutoSave True, SetDirty True, SetEnableAutoSave False] initial)
       \<lparr>isdirty := False\<rparr> \<and>
   scheduled (step (SetEnableAutoSave True)
     (run [SetEnableAutoSave True, SetDirty True, SetEnableAutoSave False] initial)) = Some True"
proof -
  note w = autosave_two_states[of "[SetEnableAutoSave True, SetDirty True]", unfolded Let_def]
  note i = autosave_two_states[of "[SetEnableAutoSave True, SetDirty True, SetEnableAutoSave False]",
      unfolded Let_def]
  have m: "mode_of (run [SetEnableAutoSave True, SetDirty True] initial) = Watching"
    by (simp add: run_enabled_dirty mode_of_def)
  have d: "isdirty (run [SetEnableAutoSave True, SetDirty True] initial)"
    "\<not> pauseAutoSave (run [SetEnableAutoSave True, SetDirty True] initial)"
    "saves (run [SetEnableAutoSave True, SetDirty True] initial) = 0"
    "scheduled (run [SetEnableAutoSave True, SetDirty True] initial) = Some True"
    "stale (run [SetEnableAutoSave True, SetDirty True] initial) = []"
    by (simp_all add: run_enabled_dirty)
  have m': "mode_of (run [SetEnableAutoSave True, SetDirty True, SetEnableAutoSave False] initial)
      = Idle"
    by (simp add: run_disabled_early mode_of_def)
  have d': "isdirty (run [SetEnableAutoSave True, SetDirty True, SetEnableAutoSave False] initial)"
    "\<not> pauseAutoSave (run [SetEnableAutoSave True, SetDirty True, SetEnableAutoSave False] initial)"
    by (simp_all add: run_disabled_early)
  have 1: "saves (step DebounceElapsed (run [SetEnableAutoSave True, SetDirty True] initial)) = 1"
    using w m d by simp
  have "SetPause True \<noteq> DebounceElapsed \<and> SetPause True \<noteq> StaleDebounceElapsed" by simp
  then have 2: "saves (step (SetPause True) (run [SetEnableAutoSave True, SetDirty True] initial)) = 0"
    using w d(3) by metis
  have 3: "stale (step (SetEnableAutoSave False)
            (run [SetEnableAutoSave True, SetDirty True] initial)) = [True]"
    using w m d by simp
  have 4: "step (SetDirty False)
     (run [SetEnableAutoSave True, SetDirty True, SetEnableAutoSave False] initial) =
     (run [SetEnableAutoSave True, SetDirty True, SetEnableAutoSave False] initial)
       \<lparr>isdirty := False\<rparr>"
    using i m' by blast
  have 5: "scheduled (step (SetEnableAutoSave True)
     (run [SetEnableAutoSave True, SetDirty True, SetEnableAutoSave False] initial)) = Some True"
    using i m' d' by simp
  show ?thesis
    by (intro conjI) (rule m d(4) 1 2 3 m' 4 5)+
qed

text \<open>Claim C5 as stated fails: auto-save is enabled, the workbook becomes dirty, and
  auto-save is disabled before the debounce interval has passed.  The controller is Idle,
  and the timer that was set before still runs and saves.\<close>

theorem autosave_saves_after_disabling_counterexample:
  "mode_of (run [SetEnableAutoSave True, SetDirty True, SetEnableAutoSave False] initial) = Idle \<and>
   saves (run [SetEnableAutoSave True, SetDirty True, SetEnableAutoSave False] initial) = 0 \<and>
   mode_of (run [SetEnableAutoSave True, SetDirty True, SetEnableAutoSave False,
                 StaleDebounceElapsed] initial) = Idle \<and>
   saves (run [SetEnableAutoSave True, SetDirty True, SetEnableAutoSave False,
               StaleDebounceElapsed] initial) = 1"
proof -
  have "run ([SetEnableAutoSave True, SetDirty True, SetEnableAutoSave False] @
             [StaleDebounceElapsed]) initial =
     \<lparr>enable_auto_save = False, stopAutoSaveWatcher = None,
      isdirty = True, pauseAutoSave = False, scheduled = None, stale = [], saves = 1\<rparr>"
    unfolding run_snoc run_disabled_early
    by (simp add: step_def watcher_callback_def)
  then have "run [SetEnableAutoSave True, SetDirty True, SetEnableAutoSave False,
             StaleDebounceElapsed] initial =
     \<lparr>enable_auto_save = False, stopAutoSaveWatcher = None,
      isdirty = True, pauseAutoSave = False, scheduled = None, stale = [], saves = 1\<rparr>"
    by simp
  then show ?thesis by (simp add: run_disabled_early mode_of_def)
qed

end
